theory Spec2Isabelle
  imports Complex_Main
begin

section \<open>Amplitude vectors, matrices and errors\<close>

text \<open>
  The simulator works on numpy arrays of complex numbers. An amplitude vector is
  modelled as a list of complex numbers and a matrix as the list of its rows. Floating
  point is idealised: the entries are exact complex numbers, so every statement below is
  about the arithmetic the code intends, not about rounding. The one computation of the
  optimizer on parameter values, the merging of rotation angles, is modelled for an
  arbitrary arithmetic on the angles instead. A scipy CSR matrix is modelled by the array
  it denotes.
\<close>

type_synonym cvec = "complex list"
type_synonym cmat = "complex list list"

text \<open>
  The exceptions of the source, as values:
  \<^item> \<open>UnknownGate\<close>: \<open>ValueError("Unknown gate: ...")\<close> of \<open>get_gate\<close>;
  \<^item> \<open>UnsupportedTopology\<close>: the \<open>NotImplementedError\<close> of \<open>apply_two_qubit_gate\<close>;
  \<^item> \<open>UnsupportedArity\<close>: the \<open>NotImplementedError\<close> of \<open>run\<close>;
  \<^item> \<open>ShapeMismatch\<close>: the \<open>ValueError\<close> numpy and scipy raise when the shapes of a
    product or of a reshape do not fit;
  \<^item> \<open>IndexError\<close>: Python's out-of-range list assignment;
  \<^item> \<open>KeyError\<close>: the \<open>KeyError\<close> of \<open>opt_einsum\<close> for an output label that no operand has.
\<close>

datatype error =
  UnknownGate | UnsupportedTopology | UnsupportedArity | ShapeMismatch | IndexError | KeyError

definition eye :: "nat \<Rightarrow> cmat" where
  "eye n = map (\<lambda>i. map (\<lambda>j. if i = j then 1 else 0) [0..<n]) [0..<n]"

definition dot :: "cvec \<Rightarrow> cvec \<Rightarrow> complex" where
  "dot xs ys = sum_list (map (\<lambda>(x, y). x * y) (zip xs ys))"

definition krow :: "cvec \<Rightarrow> cvec \<Rightarrow> cvec" where
  "krow ra rb = concat (map (\<lambda>a. map (\<lambda>b. a * b) rb) ra)"

text \<open>\<open>np.kron\<close> of two matrices (and \<open>scipy.sparse.kron\<close> on what the operands denote).\<close>

definition kron :: "cmat \<Rightarrow> cmat \<Rightarrow> cmat" where
  "kron A B = concat (map (\<lambda>ra. map (\<lambda>rb. krow ra rb) B) A)"

definition norm_sq :: "cvec \<Rightarrow> real" where
  "norm_sq v = sum_list (map (\<lambda>z. (cmod z)\<^sup>2) v)"

section \<open>Gate library (gates.py)\<close>

definition pauli_x :: cmat where
  "pauli_x = [[0, 1], [1, 0]]"

definition pauli_y :: cmat where
  "pauli_y = [[0, - \<i>], [\<i>, 0]]"

definition pauli_z :: cmat where
  "pauli_z = [[1, 0], [0, - 1]]"

definition hadamard :: cmat where
  "hadamard = map (map (\<lambda>z. z / complex_of_real (sqrt 2))) [[1, 1], [1, - 1]]"

definition t_gate :: cmat where
  "t_gate = [[1, 0], [0, exp (\<i> * complex_of_real pi / 4)]]"

definition s_gate :: cmat where
  "s_gate = [[1, 0], [0, \<i>]]"

definition rx :: "real \<Rightarrow> cmat" where
  "rx theta =
     [[complex_of_real (cos (theta / 2)), - \<i> * complex_of_real (sin (theta / 2))],
      [- \<i> * complex_of_real (sin (theta / 2)), complex_of_real (cos (theta / 2))]]"

definition ry :: "real \<Rightarrow> cmat" where
  "ry theta =
     [[complex_of_real (cos (theta / 2)), - complex_of_real (sin (theta / 2))],
      [complex_of_real (sin (theta / 2)), complex_of_real (cos (theta / 2))]]"

definition rz :: "real \<Rightarrow> cmat" where
  "rz theta =
     [[exp (- \<i> * complex_of_real theta / 2), 0],
      [0, exp (\<i> * complex_of_real theta / 2)]]"

definition phase :: "real \<Rightarrow> cmat" where
  "phase phi = [[1, 0], [0, exp (\<i> * complex_of_real phi)]]"

definition cnot :: cmat where
  "cnot = [[1, 0, 0, 0],
           [0, 1, 0, 0],
           [0, 0, 0, 1],
           [0, 0, 1, 0]]"

definition cz :: cmat where
  "cz = [[1, 0, 0, 0],
         [0, 1, 0, 0],
         [0, 0, 1, 0],
         [0, 0, 0, - 1]]"

definition swap :: cmat where
  "swap = [[1, 0, 0, 0],
           [0, 0, 1, 0],
           [0, 1, 0, 0],
           [0, 0, 0, 1]]"

text \<open>\<open>gate[i, j] = v\<close> on a two-dimensional array, for indices in range.\<close>

definition set_entry :: "cmat \<Rightarrow> nat \<Rightarrow> nat \<Rightarrow> complex \<Rightarrow> cmat" where
  "set_entry M i j v = M[i := (M ! i)[j := v]]"

definition toffoli :: cmat where
  "toffoli =
     (let gate = eye 8;
          gate = set_entry gate 6 6 0;
          gate = set_entry gate 7 7 0;
          gate = set_entry gate 6 7 1;
          gate = set_entry gate 7 6 1
      in gate)"

subsection \<open>Operator expansion\<close>

text \<open>
  \<open>apply_single_qubit_gate\<close>: the start value is the gate when the target is qubit 0
  and the identity otherwise; the loop runs over \<open>range(1, n_qubits)\<close>. The sparse and the
  dense branch are the same fold, on CSR matrices and on arrays. The qubit index is a
  Python integer and is not checked against the register size.
\<close>

definition apply_single_qubit_gate :: "cmat \<Rightarrow> int \<Rightarrow> nat \<Rightarrow> bool \<Rightarrow> cmat" where
  "apply_single_qubit_gate gate qubit_index n_qubits use_sparse =
     (if use_sparse then
        (let identity = eye 2;
             gate_sparse = gate;
             result = (if qubit_index = 0 then gate_sparse else identity)
         in fold (\<lambda>i result. if int i = qubit_index then kron result gate_sparse
                              else kron result identity) [1..<n_qubits] result)
      else
        (let identity = eye 2;
             result = (if qubit_index = 0 then gate else identity)
         in fold (\<lambda>i result. if int i = qubit_index then kron result gate
                              else kron result identity) [1..<n_qubits] result))"

text \<open>
  The first loop of the sparse branch of \<open>apply_two_qubit_gate\<close>:
  \<open>for i in range(0, n_qubits, 2)\<close>, which multiplies the gate in and breaks when
  \<open>i == min_idx\<close> and multiplies an identity in otherwise.
\<close>

fun sparse_scan :: "int \<Rightarrow> cmat \<Rightarrow> cmat \<Rightarrow> nat list \<Rightarrow> cmat \<Rightarrow> cmat" where
  "sparse_scan min_idx gate_sparse identity [] result = result"
| "sparse_scan min_idx gate_sparse identity (i # is) result =
     (if int i = min_idx then kron result gate_sparse
      else sparse_scan min_idx gate_sparse identity is (kron result identity))"

text \<open>\<open>range(0, n, 2)\<close>.\<close>

definition range_step2 :: "nat \<Rightarrow> nat list" where
  "range_step2 n = map (\<lambda>j. 2 * j) [0..<(n + 1) div 2]"

text \<open>
  \<open>apply_two_qubit_gate\<close>. \<open>[a..b]\<close> is the list of the integers from \<open>a\<close> to \<open>b\<close>, so
  \<open>range(a, b)\<close> is \<open>[a..b - 1]\<close>.
\<close>

definition apply_two_qubit_gate :: "cmat \<Rightarrow> int \<Rightarrow> int \<Rightarrow> nat \<Rightarrow> bool \<Rightarrow> error + cmat" where
  "apply_two_qubit_gate gate control target n_qubits use_sparse =
     (if \<bar>control - target\<bar> \<noteq> 1 then Inl UnsupportedTopology
      else if use_sparse then
        (let identity = eye 2;
             gate_sparse = gate;
             min_idx = min control target;
             result = eye 1;
             result = sparse_scan min_idx gate_sparse identity (range_step2 n_qubits) result;
             result = fold (\<lambda>i result. kron result identity) [min_idx + 2..int n_qubits - 1] result
         in Inr result)
      else
        (let identity = eye 2;
             min_idx = min control target;
             result = eye 1;
             result = fold (\<lambda>i result. kron result identity) [0..min_idx - 1] result;
             result = kron result gate;
             result = fold (\<lambda>i result. kron result identity) [min_idx + 2..int n_qubits - 1] result
         in Inr result))"

subsection \<open>Gate dictionary\<close>

definition GATE_MAP :: "string \<rightharpoonup> cmat" where
  "GATE_MAP = map_of
     [(''X'', pauli_x), (''Y'', pauli_y), (''Z'', pauli_z), (''H'', hadamard),
      (''T'', t_gate), (''S'', s_gate), (''CNOT'', cnot), (''CZ'', cz),
      (''SWAP'', swap), (''TOFFOLI'', toffoli)]"

text \<open>\<open>params.get(key, default)\<close>, for parameter values of any type.\<close>

definition params_get :: "(string \<rightharpoonup> 'v) \<Rightarrow> string \<Rightarrow> 'v \<Rightarrow> 'v" where
  "params_get params key dflt = (case params key of Some v \<Rightarrow> v | None \<Rightarrow> dflt)"

definition get_gate :: "string \<Rightarrow> (string \<rightharpoonup> real) \<Rightarrow> error + cmat" where
  "get_gate gate_name params =
     (case GATE_MAP gate_name of
        Some gate_func \<Rightarrow> Inr gate_func
      | None \<Rightarrow>
          if gate_name = ''RX'' then Inr (rx (params_get params ''theta'' 0))
          else if gate_name = ''RY'' then Inr (ry (params_get params ''theta'' 0))
          else if gate_name = ''RZ'' then Inr (rz (params_get params ''theta'' 0))
          else if gate_name = ''PHASE'' then Inr (phase (params_get params ''phi'' 0))
          else Inl UnknownGate)"

section \<open>State construction and products (qubit.py, sparse_utils.py)\<close>


text \<open>
  The engine only ever calls \<open>create_multi_qubit_state(n_qubits, 0)\<close>, which cannot
  raise: index 0 is in range for every \<open>n_qubits\<close>. \<open>zero_state\<close> is the vector it returns
  (lemma \<open>create_multi_qubit_state_0\<close>).
\<close>

definition zero_state :: "nat \<Rightarrow> cvec" where
  "zero_state n = (replicate (2 ^ n) (0::complex))[0 := 1]"

text \<open>
  \<open>sparse_state_vector_product\<close>: \<open>matrix.dot(state)\<close> for a sparse matrix and
  \<open>np.dot(matrix, state)\<close> for a dense one. Both are the matrix-vector product and both
  raise when the number of columns differs from the length of the vector.
\<close>

definition sparse_state_vector_product :: "cmat \<Rightarrow> cvec \<Rightarrow> error + cvec" where
  "sparse_state_vector_product matrix state =
     (if list_all (\<lambda>row. length row = length state) matrix
      then Inr (map (\<lambda>row. dot row state) matrix)
      else Inl ShapeMismatch)"

section \<open>Circuit optimizer (optimizer.py)\<close>

text \<open>
  A \<open>GateNode\<close> is a mutable object that several lists may share: \<open>gates.copy()\<close> copies
  the list, not the nodes. The objects therefore live in a store, a gate list is a list of
  references into it, and a function that creates or changes a node returns the new store.
  \<open>lim\<close> is the first address not yet in use.

  The parameter values of a node (\<open>Dict[str, Any]\<close>) have the type \<open>'v\<close>: the optimizer is
  modelled for every type of values, the engine runs on real numbers.
\<close>

record 'v GateNode =
  gate_name :: string
  qubits :: "int list"
  params :: "string \<rightharpoonup> 'v"
  depth :: int

type_synonym ref = nat

record 'v heap =
  cells :: "ref \<Rightarrow> 'v GateNode"
  lim :: nat

definition alloc :: "'v heap \<Rightarrow> 'v GateNode \<Rightarrow> ref \<times> 'v heap" where
  "alloc h g = (lim h, h\<lparr>cells := (cells h)(lim h := g), lim := Suc (lim h)\<rparr>)"

subsection \<open>cancel_inverse\<close>

definition inverse_pairs :: "string \<rightharpoonup> string" where
  "inverse_pairs = map_of
     [(''X'', ''X''), (''Y'', ''Y''), (''Z'', ''Z''), (''H'', ''H''), (''CNOT'', ''CNOT'')]"

text \<open>The \<open>while i < len(gates)\<close> loop of \<open>_cancel_inverse_gates\<close>.\<close>

function cancel_loop :: "'v heap \<Rightarrow> ref list \<Rightarrow> nat \<Rightarrow> ref list \<Rightarrow> ref list" where
  "cancel_loop h gs i optimized =
     (if i < length gs then
        (let gate = cells h (gs ! i) in
         if i + 1 < length gs \<and>
            (case inverse_pairs (gate_name gate) of
               None \<Rightarrow> False
             | Some nm \<Rightarrow> gate_name (cells h (gs ! (i + 1))) = nm) \<and>
            qubits gate = qubits (cells h (gs ! (i + 1)))
         then cancel_loop h gs (i + 2) optimized
         else cancel_loop h gs (i + 1) (optimized @ [gs ! i]))
      else optimized)"
  by pat_completeness auto
termination
  by (relation "measure (\<lambda>(h, gs, i, optimized). length gs - i)") auto

declare cancel_loop.simps [simp del]

definition cancel_inverse_gates :: "'v heap \<Rightarrow> ref list \<Rightarrow> ref list" where
  "cancel_inverse_gates h gs = cancel_loop h gs 0 []"

subsection \<open>merge_rotations\<close>

definition rotation_gates :: "string set" where
  "rotation_gates = {''RX'', ''RY'', ''RZ''}"

text \<open>
  The angles of the rule are Python floats, and \<open>+\<close>, \<open>%\<close>, \<open>abs\<close> and \<open>>\<close> on them are the
  operations of IEEE doubles: they round, overflow to \<open>inf\<close> and produce \<open>nan\<close>. The rule uses
  nothing else of its angles, so the loops take these operations as a parameter \<open>ar\<close>, over
  any type \<open>'v\<close> of angle values:
  \<^item> \<open>angle_zero\<close>: the default \<open>0\<close> of \<open>params.get('theta', 0)\<close>;
  \<^item> \<open>angle_add a b\<close>: \<open>a + b\<close> (the \<open>+=\<close> of the inner loop);
  \<^item> \<open>angle_mod_2pi t\<close>: \<open>t % (2 * np.pi)\<close>;
  \<^item> \<open>angle_above_tol r\<close>: \<open>abs(r) > 1e-10\<close>.

  What is proved of the loops for every \<open>ar\<close> holds of the doubles of the code.
\<close>

record 'v arith =
  angle_zero :: 'v
  angle_add :: "'v \<Rightarrow> 'v \<Rightarrow> 'v"
  angle_mod_2pi :: "'v \<Rightarrow> 'v"
  angle_above_tol :: "'v \<Rightarrow> bool"

text \<open>
  Python's \<open>x % y\<close> for a positive \<open>y\<close>, over the reals: the remainder has the sign of the
  divisor.
\<close>

definition py_fmod :: "real \<Rightarrow> real \<Rightarrow> real" where
  "py_fmod x y = x - y * of_int \<lfloor>x / y\<rfloor>"

text \<open>
  The same operations without rounding, on real numbers. The engine below optimizes and
  runs in this arithmetic.
\<close>

definition exact_arith :: "real arith" where
  "exact_arith =
     \<lparr>angle_zero = 0, angle_add = (\<lambda>a b. a + b),
      angle_mod_2pi = (\<lambda>t. py_fmod t (2 * pi)),
      angle_above_tol = (\<lambda>r. \<bar>r\<bar> > 1 / 10 ^ 10)\<rparr>"

text \<open>The inner \<open>while\<close> loop: it returns the final \<open>j\<close> and \<open>total_angle\<close>.\<close>

function merge_scan ::
  "'v arith \<Rightarrow> 'v heap \<Rightarrow> ref list \<Rightarrow> 'v GateNode \<Rightarrow> nat \<Rightarrow> 'v \<Rightarrow> nat \<times> 'v" where
  "merge_scan ar h gs gate j total_angle =
     (if j < length gs \<and>
         gate_name (cells h (gs ! j)) = gate_name gate \<and>
         qubits (cells h (gs ! j)) = qubits gate
      then merge_scan ar h gs gate (j + 1)
             (angle_add ar total_angle
                (params_get (params (cells h (gs ! j))) ''theta'' (angle_zero ar)))
      else (j, total_angle))"
  by pat_completeness auto
termination
  by (relation "measure (\<lambda>(ar, h, gs, gate, j, total_angle). length gs - j)") auto

declare merge_scan.simps [simp del]

lemma merge_scan_ge: "j \<le> fst (merge_scan ar h gs gate j t)"
proof (induction ar h gs gate j t rule: merge_scan.induct)
  case (1 ar h gs gate j t)
  show ?case
  proof (cases "j < length gs \<and> gate_name (cells h (gs ! j)) = gate_name gate \<and>
      qubits (cells h (gs ! j)) = qubits gate")
    case True
    then have "j + 1 \<le> fst (merge_scan ar h gs gate (j + 1)
        (angle_add ar t (params_get (params (cells h (gs ! j))) ''theta'' (angle_zero ar))))"
      using "1.IH" by blast
    with True show ?thesis
      by (subst merge_scan.simps) simp
  next
    case False
    then show ?thesis
      by (subst merge_scan.simps) auto
  qed
qed

lemma merge_scan_le: "j \<le> length gs \<Longrightarrow> fst (merge_scan ar h gs gate j t) \<le> length gs"
proof (induction ar h gs gate j t rule: merge_scan.induct)
  case (1 ar h gs gate j t)
  show ?case
  proof (cases "j < length gs \<and> gate_name (cells h (gs ! j)) = gate_name gate \<and>
      qubits (cells h (gs ! j)) = qubits gate")
    case True
    then have "fst (merge_scan ar h gs gate (j + 1)
        (angle_add ar t (params_get (params (cells h (gs ! j))) ''theta'' (angle_zero ar))))
        \<le> length gs"
      using "1.IH" by simp
    with True show ?thesis
      by (subst merge_scan.simps) simp
  next
    case False
    with "1.prems" show ?thesis
      by (subst merge_scan.simps) auto
  qed
qed

text \<open>The outer loop of \<open>_merge_rotation_gates\<close>; the merged gate is a new object.\<close>

function merge_loop ::
  "'v arith \<Rightarrow> 'v heap \<Rightarrow> ref list \<Rightarrow> nat \<Rightarrow> ref list \<Rightarrow> ref list \<times> 'v heap" where
  "merge_loop ar h gs i optimized =
     (if i < length gs then
        (let gate = cells h (gs ! i) in
         if gate_name gate \<in> rotation_gates \<and> length (qubits gate) = 1 then
           (let total_angle = params_get (params gate) ''theta'' (angle_zero ar);
                jt = merge_scan ar h gs gate (i + 1) total_angle;
                j = fst jt;
                total_angle = snd jt
            in if angle_above_tol ar (angle_mod_2pi ar total_angle) then
                 (let merged_gate = \<lparr>gate_name = gate_name gate, qubits = qubits gate,
                        params = [''theta'' \<mapsto> angle_mod_2pi ar total_angle],
                        depth = depth gate\<rparr>;
                      rh = alloc h merged_gate
                  in merge_loop ar (snd rh) gs j (optimized @ [fst rh]))
               else merge_loop ar h gs j optimized)
         else merge_loop ar h gs (i + 1) (optimized @ [gs ! i]))
      else (optimized, h))"
  by pat_completeness auto
termination
proof (relation "measure (\<lambda>(ar, h, gs, i, optimized). length gs - i)", goal_cases)
  case 1
  show ?case by simp
next
  case (2 ar h gs i optimized gate total_angle jt j total_angle' merged rh)
  have "i + 1 \<le> fst (merge_scan ar h gs (cells h (gs ! i)) (i + 1)
      (params_get (params (cells h (gs ! i))) ''theta'' (angle_zero ar)))"
    by (rule merge_scan_ge)
  with 2 show ?case by simp
next
  case (3 ar h gs i optimized gate total_angle jt j total_angle')
  have "i + 1 \<le> fst (merge_scan ar h gs (cells h (gs ! i)) (i + 1)
      (params_get (params (cells h (gs ! i))) ''theta'' (angle_zero ar)))"
    by (rule merge_scan_ge)
  with 3 show ?case by simp
next
  case 4
  then show ?case by simp
qed

declare merge_loop.simps [simp del]

definition merge_rotation_gates :: "'v arith \<Rightarrow> 'v heap \<Rightarrow> ref list \<Rightarrow> ref list \<times> 'v heap" where
  "merge_rotation_gates ar h gs = merge_loop ar h gs 0 []"

subsection \<open>commute_gates\<close>

text \<open>
  One iteration of \<open>for i in range(len(optimized) - 1)\<close>: \<open>gate2.depth = gate1.depth\<close> writes
  to the node itself, so it is an update of the store.
\<close>

definition commute_step :: "ref list \<Rightarrow> nat \<Rightarrow> 'v heap \<times> bool \<Rightarrow> 'v heap \<times> bool" where
  "commute_step optimized i = (\<lambda>(h, changed).
     (let gate1 = cells h (optimized ! i);
          gate2 = cells h (optimized ! (i + 1))
      in if set (qubits gate1) \<inter> set (qubits gate2) = {} then
           (if depth gate2 > depth gate1
            then (h\<lparr>cells := (cells h)(optimized ! (i + 1) := gate2\<lparr>depth := depth gate1\<rparr>)\<rparr>, True)
            else (h, changed))
         else (h, changed)))"

definition commute_pass :: "ref list \<Rightarrow> 'v heap \<Rightarrow> 'v heap \<times> bool" where
  "commute_pass optimized h = fold (commute_step optimized) [0..<length optimized - 1] (h, False)"

text \<open>
  The \<open>while changed\<close> loop ends: every assignment lowers the depth of a node of the list to
  the depth of another node of the list, so the depths stay above their minimum and their
  sum falls with each pass that sets \<open>changed\<close>.
\<close>

definition commute_measure :: "ref list \<Rightarrow> 'v heap \<Rightarrow> nat" where
  "commute_measure optimized h =
     (\<Sum>r\<in>set optimized. nat (depth (cells h r) - Min ((\<lambda>r. depth (cells h r)) ` set optimized)))"

lemma commute_step_inv:
  assumes "i + 1 < length optimized"
    and "commute_step optimized i (h, c) = (h', c')"
    and "\<forall>r. depth (cells h r) \<le> depth (cells h0 r)"
    and "\<forall>r\<in>set optimized. m \<le> depth (cells h r)"
    and "c \<longrightarrow> (\<exists>r\<in>set optimized. depth (cells h r) < depth (cells h0 r))"
  shows "(\<forall>r. depth (cells h' r) \<le> depth (cells h0 r)) \<and>
         (\<forall>r\<in>set optimized. m \<le> depth (cells h' r)) \<and>
         (c' \<longrightarrow> (\<exists>r\<in>set optimized. depth (cells h' r) < depth (cells h0 r)))"
proof -
  let ?r1 = "optimized ! i" and ?r2 = "optimized ! (i + 1)"
  have r1: "?r1 \<in> set optimized" and r2: "?r2 \<in> set optimized"
    using assms(1) by simp_all
  show ?thesis
  proof (cases "set (qubits (cells h ?r1)) \<inter> set (qubits (cells h ?r2)) = {} \<and>
      depth (cells h ?r2) > depth (cells h ?r1)")
    case False
    then have "h' = h" "c' = c"
      using assms(2) by (auto simp: commute_step_def Let_def split: if_splits)
    then show ?thesis using assms(3-5) by simp
  next
    case True
    then have h': "h' = h\<lparr>cells := (cells h)(?r2 := (cells h ?r2)\<lparr>depth := depth (cells h ?r1)\<rparr>)\<rparr>"
      and c': "c' = True"
      using assms(2) by (auto simp: commute_step_def Let_def split: if_splits)
    have le: "\<And>r. depth (cells h' r) \<le> depth (cells h r)"
      using True by (simp add: h')
    have a: "\<forall>r. depth (cells h' r) \<le> depth (cells h0 r)"
      using le assms(3) order_trans by blast
    have b: "\<forall>r\<in>set optimized. m \<le> depth (cells h' r)"
      using assms(4) r1 by (simp add: h')
    have "depth (cells h' ?r2) < depth (cells h ?r2)"
      using True by (simp add: h')
    also have "\<dots> \<le> depth (cells h0 ?r2)"
      using assms(3) by blast
    finally have "\<exists>r\<in>set optimized. depth (cells h' r) < depth (cells h0 r)"
      using r2 by blast
    with a b show ?thesis by blast
  qed
qed

lemma commute_fold_inv:
  assumes "\<forall>i\<in>set is. i + 1 < length optimized"
    and "fold (commute_step optimized) is (h, c) = (h', c')"
    and "\<forall>r. depth (cells h r) \<le> depth (cells h0 r)"
    and "\<forall>r\<in>set optimized. m \<le> depth (cells h r)"
    and "c \<longrightarrow> (\<exists>r\<in>set optimized. depth (cells h r) < depth (cells h0 r))"
  shows "(\<forall>r. depth (cells h' r) \<le> depth (cells h0 r)) \<and>
         (\<forall>r\<in>set optimized. m \<le> depth (cells h' r)) \<and>
         (c' \<longrightarrow> (\<exists>r\<in>set optimized. depth (cells h' r) < depth (cells h0 r)))"
  using assms
proof (induction "is" arbitrary: h c)
  case Nil
  then show ?case by simp
next
  case (Cons i "is")
  obtain h1 c1 where s: "commute_step optimized i (h, c) = (h1, c1)"
    by (cases "commute_step optimized i (h, c)")
  have i: "i + 1 < length optimized" using Cons.prems(1) by simp
  note inv = commute_step_inv [OF i s Cons.prems(3) Cons.prems(4) Cons.prems(5)]
  show ?case
  proof (rule Cons.IH)
    show "\<forall>i\<in>set is. i + 1 < length optimized" using Cons.prems(1) by simp
    show "fold (commute_step optimized) is (h1, c1) = (h', c')"
      using Cons.prems(2) s by simp
  qed (use inv in blast)+
qed

lemma commute_pass_decreases:
  assumes "commute_pass optimized h = (h', True)"
  shows "commute_measure optimized h' < commute_measure optimized h"
proof -
  let ?S = "set optimized"
  let ?m = "Min ((\<lambda>r. depth (cells h r)) ` ?S)"
  have ne: "optimized \<noteq> []"
    using assms by (auto simp: commute_pass_def)
  then have Sne: "?S \<noteq> {}" by simp
  have fold: "fold (commute_step optimized) [0..<length optimized - 1] (h, False) = (h', True)"
    using assms by (simp add: commute_pass_def)
  have idx: "\<forall>i\<in>set [0..<length optimized - 1]. i + 1 < length optimized"
    by auto
  have low: "\<forall>r\<in>?S. ?m \<le> depth (cells h r)"
    by simp
  have inv: "(\<forall>r. depth (cells h' r) \<le> depth (cells h r)) \<and>
         (\<forall>r\<in>?S. ?m \<le> depth (cells h' r)) \<and>
         (True \<longrightarrow> (\<exists>r\<in>?S. depth (cells h' r) < depth (cells h r)))"
    by (rule commute_fold_inv [OF idx fold _ low]) simp_all
  have "?m \<in> (\<lambda>r. depth (cells h r)) ` ?S"
    by (rule Min_in) (use Sne in simp_all)
  then obtain r0 where r0: "r0 \<in> ?S" "depth (cells h r0) = ?m"
    by (metis (mono_tags, lifting) imageE)
  have "Min ((\<lambda>r. depth (cells h' r)) ` ?S) \<le> depth (cells h' r0)"
    using r0(1) by simp
  also have "\<dots> \<le> ?m" using inv r0(2) by metis
  finally have up: "Min ((\<lambda>r. depth (cells h' r)) ` ?S) \<le> ?m" .
  have "?m \<le> Min ((\<lambda>r. depth (cells h' r)) ` ?S)"
    using inv Sne by simp
  with up have meq: "Min ((\<lambda>r. depth (cells h' r)) ` ?S) = ?m" by simp
  have "(\<Sum>r\<in>?S. nat (depth (cells h' r) - ?m)) < (\<Sum>r\<in>?S. nat (depth (cells h r) - ?m))"
  proof (rule sum_strict_mono_ex1)
    show "finite ?S" by simp
    show "\<forall>r\<in>?S. nat (depth (cells h' r) - ?m) \<le> nat (depth (cells h r) - ?m)"
      using inv by (simp add: nat_mono)
    obtain r where r: "r \<in> ?S" "depth (cells h' r) < depth (cells h r)"
      using inv by blast
    moreover have "?m \<le> depth (cells h' r)" using inv r(1) by blast
    ultimately show "\<exists>r\<in>?S. nat (depth (cells h' r) - ?m) < nat (depth (cells h r) - ?m)"
      by (intro bexI [of _ r]) linarith+
  qed
  then show ?thesis
    unfolding commute_measure_def meq .
qed

text \<open>The \<open>while changed\<close> loop of \<open>_commute_gates\<close>.\<close>

function commute_while :: "ref list \<Rightarrow> 'v heap \<Rightarrow> 'v heap" where
  "commute_while optimized h =
     (let hc = commute_pass optimized h in
      if snd hc then commute_while optimized (fst hc) else fst hc)"
  by pat_completeness auto
termination
proof (relation "measure (\<lambda>(optimized, h). commute_measure optimized h)", goal_cases)
  case 1
  show ?case by simp
next
  case (2 optimized h hc)
  then have "commute_pass optimized h = (fst hc, True)"
    by (metis prod.collapse)
  from commute_pass_decreases [OF this] show ?case by simp
qed

declare commute_while.simps [simp del]

definition commute_gates :: "'v heap \<Rightarrow> ref list \<Rightarrow> ref list \<times> 'v heap" where
  "commute_gates h gs = (let optimized = gs in (optimized, commute_while optimized h))"

subsection \<open>optimize\<close>

text \<open>
  The rule dictionary of \<open>_build_rules\<close>; every rule maps a store and a list to both. The
  engine's gates carry real parameters, merged in exact arithmetic.
\<close>

definition optimization_rules :: "string \<rightharpoonup> (real heap \<Rightarrow> ref list \<Rightarrow> ref list \<times> real heap)" where
  "optimization_rules = map_of
     [(''cancel_inverse'', \<lambda>h gs. (cancel_inverse_gates h gs, h)),
      (''merge_rotations'', merge_rotation_gates exact_arith),
      (''commute_gates'', commute_gates)]"

text \<open>\<open>rules = None\<close> selects the keys of the dictionary, in their insertion order.\<close>

definition optimize :: "real heap \<Rightarrow> ref list \<Rightarrow> string list option \<Rightarrow> ref list \<times> real heap" where
  "optimize h gs rules =
     (let rules = (case rules of
                     None \<Rightarrow> [''cancel_inverse'', ''merge_rotations'', ''commute_gates'']
                   | Some rs \<Rightarrow> rs);
          optimized = gs
      in fold (\<lambda>rule_name (optimized, h).
                 case optimization_rules rule_name of
                   Some rule \<Rightarrow> rule h optimized
                 | None \<Rightarrow> (optimized, h)) rules (optimized, h))"

section \<open>Tensor contraction backend (tensor_networks.py)\<close>

text \<open>
  A state tensor of shape \<open>[2] * n\<close> is modelled by its flattened (row-major) vector:
  \<open>unravel n idx\<close> is the multi-index of the flat position \<open>idx\<close>, axis 0 first, and
  \<open>ravel\<close> is the flat position of a multi-index.
\<close>

definition unravel :: "nat \<Rightarrow> nat \<Rightarrow> nat list" where
  "unravel n idx = map (\<lambda>a. (idx div 2 ^ (n - 1 - a)) mod 2) [0..<n]"

definition ravel :: "nat list \<Rightarrow> nat" where
  "ravel bits = foldl (\<lambda>acc b. 2 * acc + b) 0 bits"

text \<open>\<open>xs[i] = v\<close> on a Python list: a negative index counts from the end.\<close>

definition py_list_set :: "'a list \<Rightarrow> int \<Rightarrow> 'a \<Rightarrow> error + 'a list" where
  "py_list_set xs i v =
     (let n = int (length xs); j = (if i < 0 then n + i else i)
      in if 0 \<le> j \<and> j < n then Inr (xs[nat j := v]) else Inl IndexError)"

text \<open>\<open>for i, q_idx in enumerate(qubit_indices): state_indices[q_idx] = gate_in_indices[i]\<close>.\<close>

fun set_state_indices :: "int list \<Rightarrow> (int \<times> int) list \<Rightarrow> error + int list" where
  "set_state_indices state_indices [] = Inr state_indices"
| "set_state_indices state_indices ((q_idx, lbl) # rest) =
     (case py_list_set state_indices q_idx lbl of
        Inl e \<Rightarrow> Inl e
      | Inr state_indices' \<Rightarrow> set_state_indices state_indices' rest)"

text \<open>
  \<open>oe.contract(state_tensor, state_indices, gate_tensor, gate_indices, output_indices)\<close>
  with every axis of size 2, as an Einstein summation: the entry at an assignment of the
  output labels is the sum, over all assignments of the other labels, of the product of
  the two operands' entries. A repeated label within one operand reads its diagonal. An
  output label that occurs in no operand raises \<open>KeyError\<close>.
\<close>

definition contract :: "nat \<Rightarrow> cvec \<Rightarrow> int list \<Rightarrow> cvec \<Rightarrow> int list \<Rightarrow> int list \<Rightarrow> error + cvec" where
  "contract n state_tensor state_indices gate_tensor gate_indices output_indices =
     (if \<not> list_all (\<lambda>l. l \<in> set state_indices \<union> set gate_indices) output_indices
      then Inl KeyError
      else
        (let summed = remdups (filter (\<lambda>l. l \<notin> set output_indices) (state_indices @ gate_indices))
         in Inr (map (\<lambda>idx.
              sum_list (map (\<lambda>asg.
                 (let val = (\<lambda>l. case map_of (zip output_indices (unravel n idx) @ zip summed asg) l of
                                    Some b \<Rightarrow> b | None \<Rightarrow> 0)
                  in state_tensor ! ravel (map val state_indices) *
                     gate_tensor ! ravel (map val gate_indices)))
                (List.n_lists (length summed) [0, 1])))
              [0..<2 ^ n])))"

text \<open>
  \<open>apply_gate_tensor\<close>. \<open>gate.reshape([2] * (2 * k))\<close> needs \<open>4 ** k\<close> entries; the
  reshaped gate is the row-major flattening of the matrix.
\<close>

definition apply_gate_tensor :: "nat \<Rightarrow> cvec \<Rightarrow> cmat \<Rightarrow> int list \<Rightarrow> error + cvec" where
  "apply_gate_tensor n state_tensor gate qubit_indices =
     (let n_gate_qubits = length qubit_indices in
      if length (concat gate) \<noteq> 4 ^ n_gate_qubits then Inl ShapeMismatch
      else
        (let gate_tensor = concat gate;
             state_indices = map int [0..<n];
             gate_in_indices = map (\<lambda>i. int n + int i) [0..<n_gate_qubits];
             gate_out_indices = qubit_indices
         in case set_state_indices state_indices (zip qubit_indices gate_in_indices) of
              Inl e \<Rightarrow> Inl e
            | Inr state_indices' \<Rightarrow>
                contract n state_tensor state_indices' gate_tensor
                  (gate_out_indices @ gate_in_indices) (map int [0..<n])))"

fun apply_gates_tensor :: "nat \<Rightarrow> (cmat \<times> int list) list \<Rightarrow> cvec \<Rightarrow> error + cvec" where
  "apply_gates_tensor n [] state_tensor = Inr state_tensor"
| "apply_gates_tensor n ((gate, qubit_indices) # rest) state_tensor =
     (case apply_gate_tensor n state_tensor gate qubit_indices of
        Inl e \<Rightarrow> Inl e
      | Inr state_tensor' \<Rightarrow> apply_gates_tensor n rest state_tensor')"

text \<open>\<open>tensor_network_simulator\<close> with \<open>use_mps = False\<close>, the only way \<open>run\<close> calls it.\<close>

definition tensor_network_simulator :: "nat \<Rightarrow> (cmat \<times> int list) list \<Rightarrow> error + cvec" where
  "tensor_network_simulator n gate_list =
     (let state_tensor = zero_state n
      in apply_gates_tensor n gate_list state_tensor)"

section \<open>Simulation engine (circuits.py)\<close>

definition should_use_sparse :: "nat \<Rightarrow> real \<Rightarrow> bool" where
  "should_use_sparse n gate_sparsity \<longleftrightarrow> n > 10 \<or> gate_sparsity > 7 / 10"

record QuantumCircuit =
  n_qubits :: nat
  use_tensor_network :: bool
  use_sparse :: bool
  state :: cvec
  gates :: "ref list"
  store :: "real heap"

definition empty_heap :: "real heap" where
  "empty_heap = \<lparr>cells = (\<lambda>r. \<lparr>gate_name = [], qubits = [], params = Map.empty, depth = 0\<rparr>),
                 lim = 0\<rparr>"

text \<open>\<open>QuantumCircuit(n, use_sparse, use_tensor_network)\<close>; \<open>use_sparse = None\<close> auto-detects.\<close>

definition new_circuit :: "nat \<Rightarrow> bool option \<Rightarrow> bool \<Rightarrow> QuantumCircuit" where
  "new_circuit n sp tn =
     \<lparr>n_qubits = n, use_tensor_network = tn,
      use_sparse = (case sp of None \<Rightarrow> should_use_sparse n (1 / 2) | Some b \<Rightarrow> b),
      state = zero_state n, gates = [], store = empty_heap\<rparr>"

definition add_gate :: "QuantumCircuit \<Rightarrow> string \<Rightarrow> int list \<Rightarrow> (string \<rightharpoonup> real) \<Rightarrow> QuantumCircuit" where
  "add_gate c name qs ps =
     (let gate_node = \<lparr>gate_name = name, qubits = qs, params = ps, depth = 0\<rparr>;
          rh = alloc (store c) gate_node
      in c\<lparr>gates := gates c @ [fst rh], store := snd rh\<rparr>)"

text \<open>The body of the loop of the state-vector branch of \<open>run\<close>, for one gate.\<close>

definition apply_gate_node :: "nat \<Rightarrow> bool \<Rightarrow> real GateNode \<Rightarrow> cvec \<Rightarrow> error + cvec" where
  "apply_gate_node n sp gate_node st =
     (case get_gate (gate_name gate_node) (params gate_node) of
        Inl e \<Rightarrow> Inl e
      | Inr gate_matrix \<Rightarrow>
          (case (if length (qubits gate_node) = 1 then
                   Inr (apply_single_qubit_gate gate_matrix (qubits gate_node ! 0) n sp)
                 else if length (qubits gate_node) = 2 then
                   apply_two_qubit_gate gate_matrix (qubits gate_node ! 0) (qubits gate_node ! 1) n sp
                 else Inl UnsupportedArity) of
             Inl e \<Rightarrow> Inl e
           | Inr full_gate \<Rightarrow> sparse_state_vector_product full_gate st))"

text \<open>
  The loop itself. It returns the value of \<open>self.state\<close> when the loop ends, and the
  exception if one ended it: \<open>self.state\<close> is assigned after every gate, so an exception
  leaves the state of the gates before it.
\<close>

fun run_gates :: "nat \<Rightarrow> bool \<Rightarrow> real GateNode list \<Rightarrow> cvec \<Rightarrow> cvec \<times> error option" where
  "run_gates n sp [] st = (st, None)"
| "run_gates n sp (g # gs) st =
     (case apply_gate_node n sp g st of
        Inl e \<Rightarrow> (st, Some e)
      | Inr st' \<Rightarrow> run_gates n sp gs st')"

text \<open>The loop of the tensor branch that resolves every gate matrix first.\<close>

fun gate_tuples_of :: "real GateNode list \<Rightarrow> error + (cmat \<times> int list) list" where
  "gate_tuples_of [] = Inr []"
| "gate_tuples_of (g # gs) =
     (case get_gate (gate_name g) (params g) of
        Inl e \<Rightarrow> Inl e
      | Inr gate_matrix \<Rightarrow>
          (case gate_tuples_of gs of
             Inl e \<Rightarrow> Inl e
           | Inr ts \<Rightarrow> Inr ((gate_matrix, qubits g) # ts)))"

text \<open>
  \<open>gates_to_run\<close> of \<open>run\<close>: the list the run executes and the store after the
  optimizer, and the nodes that list refers to.
\<close>

definition gates_to_run :: "QuantumCircuit \<Rightarrow> bool \<Rightarrow> ref list \<times> real heap" where
  "gates_to_run c opt = (if opt then optimize (store c) (gates c) None else (gates c, store c))"

definition nodes_to_run :: "QuantumCircuit \<Rightarrow> bool \<Rightarrow> real GateNode list" where
  "nodes_to_run c opt = map (cells (snd (gates_to_run c opt))) (fst (gates_to_run c opt))"

text \<open>
  \<open>run(optimize)\<close> returns the session after the call and either the state vector
  returned or the exception raised.
\<close>

definition run :: "QuantumCircuit \<Rightarrow> bool \<Rightarrow> QuantumCircuit \<times> (error + cvec)" where
  "run c opt =
     (let nodes = nodes_to_run c opt;
          c = c\<lparr>store := snd (gates_to_run c opt)\<rparr>
      in if use_tensor_network c then
           (case gate_tuples_of nodes of
              Inl e \<Rightarrow> (c, Inl e)
            | Inr gate_tuples \<Rightarrow>
                (case tensor_network_simulator (n_qubits c) gate_tuples of
                   Inl e \<Rightarrow> (c, Inl e)
                 | Inr st \<Rightarrow> (c\<lparr>state := st\<rparr>, Inr st)))
         else
           (case run_gates (n_qubits c) (use_sparse c) nodes (zero_state (n_qubits c)) of
              (st, None) \<Rightarrow> (c\<lparr>state := st\<rparr>, Inr st)
            | (st, Some e) \<Rightarrow> (c\<lparr>state := st\<rparr>, Inl e)))"

section \<open>Measurement keys (measure.py)\<close>

text \<open>\<open>format(outcome, '0{n}b')\<close>: the binary digits of \<open>outcome\<close>, zero-padded to width \<open>n\<close>.\<close>

fun bin_digits :: "nat \<Rightarrow> string" where
  "bin_digits k = (if k < 2 then [if k = 0 then CHR ''0'' else CHR ''1'']
                   else bin_digits (k div 2) @ [if k mod 2 = 0 then CHR ''0'' else CHR ''1''])"

declare bin_digits.simps [simp del]

definition format_bin :: "nat \<Rightarrow> nat \<Rightarrow> string" where
  "format_bin n outcome =
     (let ds = bin_digits outcome in replicate (n - length ds) (CHR ''0'') @ ds)"

section \<open>Basic facts\<close>


lemma add_gate_fields [simp]:
  "n_qubits (add_gate c nm qs ps) = n_qubits c"
  "use_tensor_network (add_gate c nm qs ps) = use_tensor_network c"
  "use_sparse (add_gate c nm qs ps) = use_sparse c"
  "state (add_gate c nm qs ps) = state c"
  by (simp_all add: add_gate_def Let_def)

lemma new_circuit_fields [simp]:
  "n_qubits (new_circuit n sp tn) = n"
  "use_tensor_network (new_circuit n sp tn) = tn"
  "use_sparse (new_circuit n (Some b) tn) = b"
  "state (new_circuit n sp tn) = zero_state n"
  by (simp_all add: new_circuit_def)

lemma run_result_sv:
  "\<not> use_tensor_network c \<Longrightarrow>
   snd (run c opt) =
     (case snd (run_gates (n_qubits c) (use_sparse c) (nodes_to_run c opt) (zero_state (n_qubits c))) of
        None \<Rightarrow> Inr (fst (run_gates (n_qubits c) (use_sparse c) (nodes_to_run c opt) (zero_state (n_qubits c))))
      | Some e \<Rightarrow> Inl e)"
  by (simp add: run_def Let_def split: prod.splits option.splits)

lemma run_state_sv:
  "\<not> use_tensor_network c \<Longrightarrow>
   state (fst (run c opt)) =
     fst (run_gates (n_qubits c) (use_sparse c) (nodes_to_run c opt) (zero_state (n_qubits c)))"
  by (simp add: run_def Let_def split: prod.splits option.splits)

lemma run_gates_append:
  "run_gates n sp (pre @ rest) st =
     (case run_gates n sp pre st of
        (st', None) \<Rightarrow> run_gates n sp rest st'
      | (st', Some e) \<Rightarrow> (st', Some e))"
  by (induction pre arbitrary: st) (auto split: sum.splits)

lemmas heap_simps = alloc_def empty_heap_def add_gate_def new_circuit_def Let_def

lemmas opt_simps = gates_to_run_def nodes_to_run_def optimize_def optimization_rules_def
  cancel_inverse_gates_def cancel_loop.simps inverse_pairs_def
  merge_rotation_gates_def merge_loop.simps merge_scan.simps rotation_gates_def exact_arith_def
  commute_gates_def commute_while.simps commute_pass_def commute_step_def

lemma fmod_2pi: "py_fmod (2 * pi) (2 * pi) = 0"
  by (simp add: py_fmod_def)

lemma get_gate_fixed:
  "get_gate ''X'' ps = Inr pauli_x"
  "get_gate ''Y'' ps = Inr pauli_y"
  "get_gate ''Z'' ps = Inr pauli_z"
  "get_gate ''H'' ps = Inr hadamard"
  "get_gate ''T'' ps = Inr t_gate"
  "get_gate ''S'' ps = Inr s_gate"
  "get_gate ''CNOT'' ps = Inr cnot"
  "get_gate ''CZ'' ps = Inr cz"
  "get_gate ''SWAP'' ps = Inr swap"
  "get_gate ''TOFFOLI'' ps = Inr toffoli"
  by (simp_all add: get_gate_def GATE_MAP_def)

lemma zero_state_3: "zero_state 3 = [1, 0, 0, 0, 0, 0, 0, 0]"
  by code_simp

section \<open>C10: non-adjacent two-qubit gates\<close>

text \<open>
  C10, as the code has it. For target indices \<open>a\<close> and \<open>b\<close> with \<open>|a - b| \<noteq> 1\<close>, the expansion
  \<open>apply_two_qubit_gate\<close> fails with \<open>UnsupportedTopology\<close> for every gate matrix, register
  size and construction policy (sparse or dense). A run on the state-vector path aborts
  with that error when the list it executes (the optimizer's output when optimisation is
  on) reaches such a gate, that is when the gates before it ran without error and the
  gate's name is a known one.
\<close>

theorem non_adjacent_unsupported:
  assumes "\<bar>a - b\<bar> \<noteq> 1"
  shows "apply_two_qubit_gate gate a b n sp = Inl UnsupportedTopology \<and>
         (\<not> use_tensor_network c \<and> nodes_to_run c opt = pre @ g # rest \<and>
          snd (run_gates (n_qubits c) (use_sparse c) pre (zero_state (n_qubits c))) = None \<and>
          get_gate (gate_name g) (params g) = Inr gate \<and> qubits g = [a, b]
          \<longrightarrow> snd (run c opt) = Inl UnsupportedTopology)"
proof (intro conjI impI)
  show top: "apply_two_qubit_gate gate a b n sp = Inl UnsupportedTopology" for n sp
    using assms by (simp add: apply_two_qubit_gate_def)
  assume h: "\<not> use_tensor_network c \<and> nodes_to_run c opt = pre @ g # rest \<and>
      snd (run_gates (n_qubits c) (use_sparse c) pre (zero_state (n_qubits c))) = None \<and>
      get_gate (gate_name g) (params g) = Inr gate \<and> qubits g = [a, b]"
  obtain st where pre: "run_gates (n_qubits c) (use_sparse c) pre (zero_state (n_qubits c)) = (st, None)"
    using h by (metis prod.collapse)
  have "apply_gate_node (n_qubits c) (use_sparse c) g st = Inl UnsupportedTopology"
    using h top by (simp add: apply_gate_node_def)
  then have "run_gates (n_qubits c) (use_sparse c) (pre @ g # rest) (zero_state (n_qubits c))
      = (st, Some UnsupportedTopology)"
    by (simp add: run_gates_append pre)
  with h show "snd (run c opt) = Inl UnsupportedTopology"
    by (simp add: run_result_sv)
qed

lemma cnot02_nodes:
  "nodes_to_run (add_gate (new_circuit 3 (Some False) False) ''CNOT'' [0, 2] Map.empty) False =
     [] @ \<lparr>gate_name = ''CNOT'', qubits = [0, 2], params = Map.empty, depth = 0\<rparr> # []"
  by (simp add: heap_simps opt_simps)

theorem non_adjacent_unsupported_witness:
  "\<bar>(0::int) - 2\<bar> \<noteq> 1 \<and>
   apply_two_qubit_gate cnot 0 2 3 False = Inl UnsupportedTopology \<and>
   snd (run (add_gate (new_circuit 3 (Some False) False) ''CNOT'' [0, 2] Map.empty) False) =
     Inl UnsupportedTopology"
  using non_adjacent_unsupported [of 0 2 cnot 3 False
      "add_gate (new_circuit 3 (Some False) False) ''CNOT'' [0, 2] Map.empty" False "[]"
      "\<lparr>gate_name = ''CNOT'', qubits = [0, 2], params = Map.empty, depth = 0\<rparr>" "[]"]
    cnot02_nodes
  by (simp add: get_gate_fixed)

text \<open>
  The claim's "a run containing such a gate aborts with that error" does not hold for
  every run: with optimisation on, two consecutive \<open>CNOT\<close> gates on qubits 0 and 2 are
  cancelled before anything is expanded, and the run returns the all-zero state.
\<close>

lemma cnot02_twice_nodes:
  "nodes_to_run (add_gate (add_gate (new_circuit 3 (Some False) False) ''CNOT'' [0, 2] Map.empty)
        ''CNOT'' [0, 2] Map.empty) True = []"
  by (simp add: heap_simps opt_simps)

theorem non_adjacent_run_counterexample:
  "snd (run (add_gate (add_gate (new_circuit 3 (Some False) False) ''CNOT'' [0, 2] Map.empty)
        ''CNOT'' [0, 2] Map.empty) True) = Inr [1, 0, 0, 0, 0, 0, 0, 0]"
  by (simp add: run_result_sv cnot02_twice_nodes zero_state_3)

section \<open>C7: cancel_inverse is a single forward pass\<close>

text \<open>
  The rule in the words of the specification: two consecutive gates cancel when the first
  one's name is one of X, Y, Z, H, CNOT, the second has the same name and both have the
  same list of target qubits; a cancelled pair is dropped and scanning resumes after it;
  any other gate is kept.
\<close>

definition self_inverse_pair :: "'v GateNode \<Rightarrow> 'v GateNode \<Rightarrow> bool" where
  "self_inverse_pair g g' \<longleftrightarrow>
     gate_name g \<in> {''X'', ''Y'', ''Z'', ''H'', ''CNOT''} \<and> gate_name g' = gate_name g \<and>
     qubits g = qubits g'"

fun cancel_spec :: "'v heap \<Rightarrow> ref list \<Rightarrow> ref list" where
  "cancel_spec h [] = []"
| "cancel_spec h [r] = [r]"
| "cancel_spec h (r # r' # rest) =
     (if self_inverse_pair (cells h r) (cells h r') then cancel_spec h rest
      else r # cancel_spec h (r' # rest))"

text \<open>The index loop of the source computes exactly this.\<close>

lemma inverse_pairs_cases:
  "(case inverse_pairs nm of None \<Rightarrow> False | Some nm' \<Rightarrow> nm2 = nm') \<longleftrightarrow>
     nm \<in> {''X'', ''Y'', ''Z'', ''H'', ''CNOT''} \<and> nm2 = nm"
  by (auto simp: inverse_pairs_def)

lemma cancel_loop_spec:
  "i \<le> length gs \<Longrightarrow> cancel_loop h gs i acc = acc @ cancel_spec h (drop i gs)"
proof (induction h gs i acc rule: cancel_loop.induct)
  case (1 h gs i optimized)
  show ?case
  proof (cases "i < length gs")
    case False
    then show ?thesis using "1.prems" by (subst cancel_loop.simps) simp
  next
    case True
    note lt = this
    let ?c = "i + 1 < length gs \<and>
            (case inverse_pairs (gate_name (cells h (gs ! i))) of
               None \<Rightarrow> False
             | Some nm \<Rightarrow> gate_name (cells h (gs ! (i + 1))) = nm) \<and>
            qubits (cells h (gs ! i)) = qubits (cells h (gs ! (i + 1)))"
    show ?thesis
    proof (cases ?c)
      case True
      then have d: "drop i gs = gs ! i # gs ! (i + 1) # drop (i + 2) gs"
        by (metis Cons_nth_drop_Suc Suc_eq_plus1 add_2_eq_Suc' lt)
      have sp: "self_inverse_pair (cells h (gs ! i)) (cells h (gs ! (i + 1)))"
        using True by (simp add: self_inverse_pair_def inverse_pairs_cases)
      have "cancel_loop h gs i optimized = cancel_loop h gs (i + 2) optimized"
        by (subst cancel_loop.simps) (simp only: Let_def lt True if_True simp_thms)
      also have "\<dots> = optimized @ cancel_spec h (drop (i + 2) gs)"
        using "1.IH"(1) [OF lt refl True] True by simp
      finally show ?thesis using sp by (simp add: d)
    next
      case False
      have d: "drop i gs = gs ! i # drop (i + 1) gs"
        using lt by (simp add: Cons_nth_drop_Suc)
      have step: "cancel_spec h (gs ! i # drop (i + 1) gs) = gs ! i # cancel_spec h (drop (i + 1) gs)"
      proof (cases "i + 1 < length gs")
        case True
        then have d2: "drop (Suc i) gs = gs ! Suc i # drop (Suc (Suc i)) gs"
          by (simp add: Cons_nth_drop_Suc)
        have "\<not> self_inverse_pair (cells h (gs ! i)) (cells h (gs ! Suc i))"
          using False True by (simp add: self_inverse_pair_def inverse_pairs_cases)
        then show ?thesis by (simp add: d2)
      next
        case False
        then show ?thesis by simp
      qed
      have "cancel_loop h gs i optimized = cancel_loop h gs (i + 1) (optimized @ [gs ! i])"
        by (subst cancel_loop.simps) (simp only: Let_def lt False if_True if_False simp_thms)
      also have "\<dots> = (optimized @ [gs ! i]) @ cancel_spec h (drop (i + 1) gs)"
        using "1.IH"(2) [OF lt refl False] lt by simp
      finally show ?thesis using step by (simp add: d)
    qed
  qed
qed

text \<open>A store with the four gates X, H, H, X on qubit 0, at the addresses 0 to 3.\<close>

definition store_xhhx :: "real heap" where
  "store_xhhx = \<lparr>cells = (\<lambda>r. \<lparr>gate_name = (if r = 0 \<or> r = 3 then ''X'' else ''H''), qubits = [0],
                         params = Map.empty, depth = 0\<rparr>), lim = 4\<rparr>"

text \<open>
  C7. \<open>cancel_inverse\<close> is the single forward pass of the specification: for every store
  and gate list its result is \<open>cancel_spec\<close>, so cancelled pairs are dropped, scanning
  resumes after the pair and all other gates are kept in order. It is not a fixpoint: on
  X, H, H, X the inner pair is removed and the two X gates, which cancel each other and are
  adjacent only after that removal, both stay.
\<close>

theorem cancel_inverse_single_pass:
  "cancel_inverse_gates h gs = cancel_spec h gs \<and>
   cancel_inverse_gates store_xhhx [0, 1, 2, 3] = [0, 3] \<and>
   self_inverse_pair (cells store_xhhx 0) (cells store_xhhx 3)"
proof (intro conjI)
  show "cancel_inverse_gates h gs = cancel_spec h gs"
    using cancel_loop_spec [of 0 gs h "[]"] by (simp add: cancel_inverse_gates_def)
  have "cancel_inverse_gates store_xhhx [0, 1, 2, 3] = cancel_spec store_xhhx [0, 1, 2, 3]"
    using cancel_loop_spec [of 0 "[0, 1, 2, 3]" store_xhhx "[]"] by (simp add: cancel_inverse_gates_def)
  then show "cancel_inverse_gates store_xhhx [0, 1, 2, 3] = [0, 3]"
    by (simp add: store_xhhx_def self_inverse_pair_def)
  show "self_inverse_pair (cells store_xhhx 0) (cells store_xhhx 3)"
    by (simp add: store_xhhx_def self_inverse_pair_def)
qed

section \<open>C8: merge_rotations\<close>

text \<open>
  The rule in the words of the specification, on gate values: a rotation gate RX, RY or RZ
  on a single target qubit starts a run, the run is the longest stretch of following gates
  with the same name and the same target list, the merged gate carries the sum of the run's
  angles, added from the left, reduced modulo \<open>2\<pi>\<close>, and is left out when the reduced angle
  is within \<open>1e-10\<close> of zero; every other gate is kept. The sum, the reduction and the
  comparison are those of the arithmetic \<open>ar\<close>.
\<close>

definition is_rotation :: "'v GateNode \<Rightarrow> bool" where
  "is_rotation g \<longleftrightarrow> gate_name g \<in> {''RX'', ''RY'', ''RZ''} \<and> length (qubits g) = 1"

definition same_kind :: "'v GateNode \<Rightarrow> 'v GateNode \<Rightarrow> bool" where
  "same_kind g g' \<longleftrightarrow> gate_name g' = gate_name g \<and> qubits g' = qubits g"

definition theta_of :: "'v arith \<Rightarrow> 'v GateNode \<Rightarrow> 'v" where
  "theta_of ar g = params_get (params g) ''theta'' (angle_zero ar)"

definition merged_node :: "'v arith \<Rightarrow> 'v GateNode \<Rightarrow> 'v \<Rightarrow> 'v GateNode" where
  "merged_node ar g tot =
     \<lparr>gate_name = gate_name g, qubits = qubits g,
      params = [''theta'' \<mapsto> angle_mod_2pi ar tot], depth = depth g\<rparr>"

function merge_spec :: "'v arith \<Rightarrow> 'v GateNode list \<Rightarrow> 'v GateNode list" where
  "merge_spec ar [] = []"
| "merge_spec ar (g # gs) =
     (if is_rotation g then
        (let tot = foldl (angle_add ar) (theta_of ar g)
                     (map (theta_of ar) (takeWhile (same_kind g) gs))
         in (if angle_above_tol ar (angle_mod_2pi ar tot) then [merged_node ar g tot] else []) @
            merge_spec ar (dropWhile (same_kind g) gs))
      else g # merge_spec ar gs)"
  by pat_completeness auto
termination
  by (relation "measure (\<lambda>(ar, gs). length gs)") (auto simp: length_dropWhile_le less_Suc_eq_le)

text \<open>
  What the words mean in exact arithmetic: \<open>r\<close> is \<open>t\<close> reduced modulo \<open>2\<pi>\<close> when it lies
  in \<open>[0, 2\<pi>)\<close> and differs from \<open>t\<close> by a whole number of turns.
\<close>

definition reduced_mod_2pi :: "real \<Rightarrow> real \<Rightarrow> bool" where
  "reduced_mod_2pi t r \<longleftrightarrow> 0 \<le> r \<and> r < 2 * pi \<and> (\<exists>k::int. t = r + of_int k * (2 * pi))"

text \<open>The index loops of the source compute \<open>merge_spec\<close>, on fresh nodes for the merged gates.\<close>

lemma merge_scan_spec:
  "j \<le> length gs \<Longrightarrow>
   merge_scan ar h gs gate j t =
     (j + length (takeWhile (same_kind gate) (map (cells h) (drop j gs))),
      foldl (angle_add ar) t
        (map (theta_of ar) (takeWhile (same_kind gate) (map (cells h) (drop j gs)))))"
proof (induction ar h gs gate j t rule: merge_scan.induct)
  case (1 ar h gs gate j t)
  let ?c = "j < length gs \<and> gate_name (cells h (gs ! j)) = gate_name gate \<and>
      qubits (cells h (gs ! j)) = qubits gate"
  let ?th = "params_get (params (cells h (gs ! j))) ''theta'' (angle_zero ar)"
  show ?case
  proof (cases ?c)
    case True
    then have d: "drop j gs = gs ! j # drop (Suc j) gs"
      by (simp add: Cons_nth_drop_Suc)
    have sk: "same_kind gate (cells h (gs ! j))"
      using True by (simp add: same_kind_def)
    have "merge_scan ar h gs gate j t = merge_scan ar h gs gate (j + 1) (angle_add ar t ?th)"
      by (subst merge_scan.simps) (simp only: True if_True simp_thms)
    also have "\<dots> = (j + 1 + length (takeWhile (same_kind gate) (map (cells h) (drop (j + 1) gs))),
      foldl (angle_add ar) (angle_add ar t ?th)
        (map (theta_of ar) (takeWhile (same_kind gate) (map (cells h) (drop (j + 1) gs)))))"
      using "1.IH" [OF True] True by simp
    finally show ?thesis
      using sk theta_of_def [of ar "cells h (gs ! j)"] by (simp add: d)
  next
    case False
    have "merge_scan ar h gs gate j t = (j, t)"
      by (subst merge_scan.simps) (simp only: False if_False)
    moreover have "takeWhile (same_kind gate) (map (cells h) (drop j gs)) = []"
    proof (cases "j < length gs")
      case True
      then have d: "drop j gs = gs ! j # drop (Suc j) gs"
        by (simp add: Cons_nth_drop_Suc)
      have "\<not> same_kind gate (cells h (gs ! j))"
        using False True by (auto simp: same_kind_def)
      then show ?thesis by (simp add: d)
    next
      case False
      then show ?thesis by simp
    qed
    ultimately show ?thesis by simp
  qed
qed

lemma alloc_fst: "fst (alloc h g) = lim h"
  by (simp add: alloc_def)

lemma map_cells_cong:
  "\<forall>r\<in>set xs. r < lim h \<Longrightarrow> \<forall>r<lim h. cells h' r = cells h r \<Longrightarrow> map (cells h') xs = map (cells h) xs"
  by (induction xs) auto

lemma merge_loop_spec:
  assumes "i \<le> length gs" and "\<forall>r\<in>set gs. r < lim h" and "merge_loop ar h gs i acc = (refs', h')"
  shows "\<exists>new. refs' = acc @ new \<and>
           map (cells h') new = merge_spec ar (map (cells h) (drop i gs)) \<and>
           (\<forall>r<lim h. cells h' r = cells h r) \<and> lim h \<le> lim h' \<and>
           (\<forall>r\<in>set new. r < lim h')"
  using assms
proof (induction ar h gs i acc arbitrary: refs' h' rule: merge_loop.induct)
  case (1 ar h gs i optimized)
  show ?case
  proof (cases "i < length gs")
    case False
    then have "merge_loop ar h gs i optimized = (optimized, h)"
      by (subst merge_loop.simps) simp
    with "1.prems" False show ?thesis by simp
  next
    case lt: True
    let ?gate = "cells h (gs ! i)"
    have d: "drop i gs = gs ! i # drop (Suc i) gs"
      using lt by (simp add: Cons_nth_drop_Suc)
    show ?thesis
    proof (cases "gate_name ?gate \<in> rotation_gates \<and> length (qubits ?gate) = 1")
      case nr: False
      have step: "merge_loop ar h gs i optimized = merge_loop ar h gs (i + 1) (optimized @ [gs ! i])"
        by (subst merge_loop.simps) (simp only: Let_def lt nr if_True if_False)
      from "1.IH"(3) [OF lt refl nr _ "1.prems"(2)] "1.prems"(3) lt step
      obtain new where new: "refs' = (optimized @ [gs ! i]) @ new"
        "map (cells h') new = merge_spec ar (map (cells h) (drop (i + 1) gs))"
        "\<forall>r<lim h. cells h' r = cells h r" "lim h \<le> lim h'" "\<forall>r\<in>set new. r < lim h'"
        by auto
      have gi: "gs ! i < lim h" using lt "1.prems"(2) by simp
      then have c: "cells h' (gs ! i) = ?gate" using new(3) by simp
      have nrot: "\<not> is_rotation ?gate"
        using nr by (simp add: is_rotation_def rotation_gates_def)
      have "map (cells h') (gs ! i # new) = merge_spec ar (map (cells h) (drop i gs))"
        using new(2) c nrot by (simp add: d)
      with new gi show ?thesis
        by (intro exI [of _ "gs ! i # new"]) auto
    next
      case rot: True
      let ?t0 = "params_get (params ?gate) ''theta'' (angle_zero ar)"
      let ?jt = "merge_scan ar h gs ?gate (i + 1) ?t0"
      let ?run = "takeWhile (same_kind ?gate) (map (cells h) (drop (Suc i) gs))"
      have jt: "?jt = (Suc (i + length ?run), foldl (angle_add ar) ?t0 (map (theta_of ar) ?run))"
        using lt by (simp add: merge_scan_spec)
      let ?j = "Suc (i + length ?run)"
      let ?total = "foldl (angle_add ar) ?t0 (map (theta_of ar) ?run)"
      have jle: "?j \<le> length gs"
        using merge_scan_le [of "i + 1" gs ar h ?gate ?t0] lt jt by simp
      have dropj: "map (cells h) (drop ?j gs) = dropWhile (same_kind ?gate) (map (cells h) (drop (Suc i) gs))"
        by (simp add: dropWhile_eq_drop drop_map add.commute)
      have isrot: "is_rotation ?gate"
        using rot by (simp add: is_rotation_def rotation_gates_def)
      have spec: "merge_spec ar (map (cells h) (drop i gs)) =
          (if angle_above_tol ar (angle_mod_2pi ar ?total) then [merged_node ar ?gate ?total] else []) @
            merge_spec ar (map (cells h) (drop ?j gs))"
        using isrot theta_of_def [of ar ?gate] by (simp add: d dropj Let_def)
      show ?thesis
      proof (cases "angle_above_tol ar (angle_mod_2pi ar ?total)")
        case big: True
        let ?m = "merged_node ar ?gate ?total"
        let ?h1 = "snd (alloc h ?m)"
        have step: "merge_loop ar h gs i optimized = merge_loop ar ?h1 gs ?j (optimized @ [lim h])"
          using big
          by (subst merge_loop.simps)
            (simp add: Let_def lt rot jt merged_node_def alloc_def del: One_nat_def)
        have h1: "\<forall>r<lim h. cells ?h1 r = cells h r" "lim ?h1 = Suc (lim h)" "cells ?h1 (lim h) = ?m"
          by (simp_all add: alloc_def)
        have valid1: "\<forall>r\<in>set gs. r < lim ?h1"
          using "1.prems"(2) h1(2) by auto
        have big': "angle_above_tol ar (angle_mod_2pi ar (snd ?jt))"
          using big jt by simp
        have st: "merge_loop ar ?h1 gs ?j (optimized @ [lim h]) = (refs', h')"
          using step "1.prems"(3) by simp
        have "\<exists>new. refs' = (optimized @ [lim h]) @ new \<and>
           map (cells h') new = merge_spec ar (map (cells ?h1) (drop ?j gs)) \<and>
           (\<forall>r<lim ?h1. cells h' r = cells ?h1 r) \<and> lim ?h1 \<le> lim h' \<and>
           (\<forall>r\<in>set new. r < lim h')"
          using "1.IH"(1) [OF lt refl rot refl refl _ refl big' refl refl, of "fst ?jt" refs' h']
            jle valid1 st jt
          by (simp add: merged_node_def alloc_fst)
        then obtain new where new: "refs' = (optimized @ [lim h]) @ new"
          "map (cells h') new = merge_spec ar (map (cells ?h1) (drop ?j gs))"
          "\<forall>r<lim ?h1. cells h' r = cells ?h1 r" "lim ?h1 \<le> lim h'"
          "\<forall>r\<in>set new. r < lim h'"
          by blast
        have eq1: "map (cells ?h1) (drop ?j gs) = map (cells h) (drop ?j gs)"
          by (rule map_cells_cong) (use "1.prems"(2) h1(1) in \<open>auto dest: in_set_dropD\<close>)
        have keep: "\<forall>r<lim h. cells h' r = cells h r"
          using new(3) h1(1,2) by (metis less_Suc_eq)
        have cm: "cells h' (lim h) = ?m"
          using new(3) h1(2,3) by (metis lessI)
        have "map (cells h') (lim h # new) = merge_spec ar (map (cells h) (drop i gs))"
          using spec big new(2) eq1 cm by simp
        moreover have "lim h < lim h'" using new(4) h1(2) by simp
        ultimately show ?thesis
          using new(1,5) keep by (intro exI [of _ "lim h # new"]) simp
      next
        case small: False
        have step: "merge_loop ar h gs i optimized = merge_loop ar h gs ?j optimized"
          using small
          by (subst merge_loop.simps)
            (simp add: Let_def lt rot jt del: One_nat_def)
        have small': "\<not> angle_above_tol ar (angle_mod_2pi ar (snd ?jt))"
          using small jt by simp
        have st: "merge_loop ar h gs ?j optimized = (refs', h')"
          using step "1.prems"(3) by simp
        have "\<exists>new. refs' = optimized @ new \<and>
           map (cells h') new = merge_spec ar (map (cells h) (drop ?j gs)) \<and>
           (\<forall>r<lim h. cells h' r = cells h r) \<and> lim h \<le> lim h' \<and>
           (\<forall>r\<in>set new. r < lim h')"
          using "1.IH"(2) [OF lt refl rot refl refl _ refl small', of "fst ?jt" refs' h']
            jle "1.prems"(2) st jt
          by simp
        then show ?thesis using spec small by simp
      qed
    qed
  qed
qed

text \<open>In exact arithmetic the sum is the sum and \<open>%\<close> is the reduction modulo \<open>2\<pi>\<close>.\<close>

lemma exact_sum: "foldl (angle_add exact_arith) t ts = t + sum_list ts"
  by (induction ts arbitrary: t) (simp_all add: exact_arith_def)

lemma exact_reduced: "reduced_mod_2pi t (angle_mod_2pi exact_arith t)"
proof -
  let ?k = "\<lfloor>t / (2 * pi)\<rfloor>"
  have p: "0 < 2 * pi" by simp
  have lo: "of_int ?k * (2 * pi) \<le> t"
    using p by (simp add: pos_le_divide_eq [symmetric])
  have hi: "t < (of_int ?k + 1) * (2 * pi)"
    using p by (simp add: pos_divide_less_eq [symmetric])
  have e: "angle_mod_2pi exact_arith t = t - of_int ?k * (2 * pi)"
    by (simp add: exact_arith_def py_fmod_def)
  have a: "0 \<le> t - of_int ?k * (2 * pi)" using lo by simp
  have b: "t - of_int ?k * (2 * pi) < 2 * pi" using hi by (simp add: algebra_simps)
  have c: "t = (t - of_int ?k * (2 * pi)) + of_int ?k * (2 * pi)" by simp
  show ?thesis
    unfolding reduced_mod_2pi_def e using a b c by blast
qed

text \<open>
  A store with RX(\<open>3\<pi>/2\<close>), RX(\<open>3\<pi>/2\<close>), H, RZ(\<open>\<pi>\<close>), RZ(\<open>\<pi>\<close>) on qubit 0, at the addresses
  0 to 4: the angles of the first run add up to \<open>3\<pi>\<close>, which reduces to \<open>\<pi>\<close>, those of the
  second to \<open>2\<pi>\<close>, which reduces to zero.
\<close>

definition store_rx_rx_h_rz_rz :: "real heap" where
  "store_rx_rx_h_rz_rz =
     \<lparr>cells = (\<lambda>r. if r < 2
                 then \<lparr>gate_name = ''RX'', qubits = [0], params = [''theta'' \<mapsto> 3 * pi / 2], depth = 0\<rparr>
                 else if r = 2
                 then \<lparr>gate_name = ''H'', qubits = [0], params = Map.empty, depth = 0\<rparr>
                 else \<lparr>gate_name = ''RZ'', qubits = [0], params = [''theta'' \<mapsto> pi], depth = 0\<rparr>),
      lim = 5\<rparr>"

text \<open>
  C8. For every arithmetic \<open>ar\<close> on the angles (so for the doubles of the code), every
  store and every gate list whose references are allocated, the gates that
  \<open>merge_rotations\<close> returns are \<open>merge_spec\<close> of the gates given: every maximal run of
  the same rotation kind on the same single qubit becomes one gate whose angle is the sum
  of the run's angles, added from the left, reduced modulo \<open>2\<pi>\<close>, or no gate when the reduced
  angle is not above \<open>1e-10\<close> in absolute value; runs of length one are treated alike; the
  other gates are kept, in order. The nodes given are not changed. In exact arithmetic the
  sum from the left is the sum of the angles, the reduced angle is the one in \<open>[0, 2\<pi>)\<close> that
  differs from the sum by a whole number of turns, and the test is \<open>|r| > 1e-10\<close>.
\<close>

theorem merge_rotations_runs:
  assumes "\<forall>r\<in>set gs. r < lim h"
  shows "map (cells (snd (merge_rotation_gates ar h gs))) (fst (merge_rotation_gates ar h gs)) =
           merge_spec ar (map (cells h) gs) \<and>
         (\<forall>r<lim h. cells (snd (merge_rotation_gates ar h gs)) r = cells h r) \<and>
         (\<forall>t ts. foldl (angle_add exact_arith) t ts = t + sum_list ts) \<and>
         (\<forall>t. reduced_mod_2pi t (angle_mod_2pi exact_arith t)) \<and>
         (\<forall>r. angle_above_tol exact_arith r \<longleftrightarrow> 1 / 10 ^ 10 < \<bar>r\<bar>)"
proof -
  obtain refs' h' where r: "merge_loop ar h gs 0 [] = (refs', h')"
    by (cases "merge_loop ar h gs 0 []")
  from merge_loop_spec [OF _ assms r]
  have "map (cells h') refs' = merge_spec ar (map (cells h) gs) \<and> (\<forall>r<lim h. cells h' r = cells h r)"
    by auto
  moreover have "\<forall>r. angle_above_tol exact_arith r \<longleftrightarrow> 1 / 10 ^ 10 < \<bar>r\<bar>"
    by (simp add: exact_arith_def)
  ultimately show ?thesis
    using exact_sum exact_reduced by (simp add: merge_rotation_gates_def r)
qed

lemma fmod_3pi: "py_fmod (3 * pi) (2 * pi) = pi"
proof -
  have "\<lfloor>3 * pi / (2 * pi)\<rfloor> = (1::int)"
    by (simp add: floor_eq_iff)
  then show ?thesis by (simp add: py_fmod_def)
qed

theorem merge_rotations_runs_witness:
  "map (cells (snd (merge_rotation_gates exact_arith store_rx_rx_h_rz_rz [0, 1, 2, 3, 4])))
     (fst (merge_rotation_gates exact_arith store_rx_rx_h_rz_rz [0, 1, 2, 3, 4])) =
     [\<lparr>gate_name = ''RX'', qubits = [0], params = [''theta'' \<mapsto> pi], depth = 0\<rparr>,
      \<lparr>gate_name = ''H'', qubits = [0], params = Map.empty, depth = 0\<rparr>] \<and>
   cells (snd (merge_rotation_gates exact_arith store_rx_rx_h_rz_rz [0, 1, 2, 3, 4])) 1 =
     cells store_rx_rx_h_rz_rz 1"
proof -
  have v: "\<forall>r\<in>set [0, 1, 2, 3, 4]. r < lim store_rx_rx_h_rz_rz"
    by (simp add: store_rx_rx_h_rz_rz_def)
  have pos: "1 / 10 ^ 10 < \<bar>pi\<bar>"
  proof -
    have "(1::real) / 10 ^ 10 < 2" by simp
    then show ?thesis using pi_ge_two by linarith
  qed
  have "merge_spec exact_arith (map (cells store_rx_rx_h_rz_rz) [0, 1, 2, 3, 4]) =
     [\<lparr>gate_name = ''RX'', qubits = [0], params = [''theta'' \<mapsto> pi], depth = 0\<rparr>,
      \<lparr>gate_name = ''H'', qubits = [0], params = Map.empty, depth = 0\<rparr>]"
    using pos by (simp add: store_rx_rx_h_rz_rz_def is_rotation_def same_kind_def theta_of_def
        params_get_def merged_node_def exact_arith_def fmod_3pi fmod_2pi)
  with merge_rotations_runs [OF v, of exact_arith] show ?thesis
    by (simp add: store_rx_rx_h_rz_rz_def)
qed

section \<open>C5: what the optimizer changes in the caller's gate records\<close>

text \<open>
  \<open>same_gate g g'\<close>: \<open>g'\<close> has the name, the target qubits and the parameters of \<open>g\<close>.
  \<open>frame_le h h'\<close>: every node allocated in \<open>h\<close> is, in \<open>h'\<close>, the same gate with a depth
  that is no larger.
\<close>

definition same_gate :: "'v GateNode \<Rightarrow> 'v GateNode \<Rightarrow> bool" where
  "same_gate g g' \<longleftrightarrow>
     gate_name g' = gate_name g \<and> qubits g' = qubits g \<and> params g' = params g"

definition frame_le :: "'v heap \<Rightarrow> 'v heap \<Rightarrow> bool" where
  "frame_le h h' \<longleftrightarrow>
     lim h \<le> lim h' \<and>
     (\<forall>r<lim h. same_gate (cells h r) (cells h' r) \<and> depth (cells h' r) \<le> depth (cells h r))"

lemma frame_le_refl: "frame_le h h"
  by (simp add: frame_le_def same_gate_def)

lemma frame_le_trans: "frame_le ha hb \<Longrightarrow> frame_le hb hc \<Longrightarrow> frame_le ha hc"
  unfolding frame_le_def same_gate_def
  by (smt (verit, best) order_less_le_trans order_trans)

lemma commute_step_frame:
  assumes "commute_step optimized i (h, c) = (h', c')"
  shows "lim h' = lim h \<and>
         (\<forall>r. same_gate (cells h r) (cells h' r) \<and> depth (cells h' r) \<le> depth (cells h r))"
  using assms
  by (auto simp: commute_step_def Let_def same_gate_def split: if_splits)

lemma commute_fold_frame:
  assumes "fold (commute_step optimized) is (h, c) = (h', c')"
  shows "lim h' = lim h \<and>
         (\<forall>r. same_gate (cells h r) (cells h' r) \<and> depth (cells h' r) \<le> depth (cells h r))"
  using assms
proof (induction "is" arbitrary: h c)
  case Nil
  then show ?case by (simp add: same_gate_def)
next
  case (Cons i "is")
  obtain h1 c1 where s: "commute_step optimized i (h, c) = (h1, c1)"
    by (cases "commute_step optimized i (h, c)")
  have a: "lim h1 = lim h \<and>
         (\<forall>r. same_gate (cells h r) (cells h1 r) \<and> depth (cells h1 r) \<le> depth (cells h r))"
    by (rule commute_step_frame [OF s])
  have b: "lim h' = lim h1 \<and>
         (\<forall>r. same_gate (cells h1 r) (cells h' r) \<and> depth (cells h' r) \<le> depth (cells h1 r))"
    using Cons.IH [of h1 c1] Cons.prems s by simp
  show ?case
    using a b unfolding same_gate_def by (smt (verit, best) order_trans)
qed

lemma commute_while_frame:
  "lim (commute_while optimized h) = lim h \<and>
   (\<forall>r. same_gate (cells h r) (cells (commute_while optimized h) r) \<and>
        depth (cells (commute_while optimized h) r) \<le> depth (cells h r))"
proof (induction optimized h rule: commute_while.induct)
  case (1 optimized h)
  obtain h1 c1 where p: "commute_pass optimized h = (h1, c1)"
    by (cases "commute_pass optimized h")
  have a: "lim h1 = lim h \<and>
         (\<forall>r. same_gate (cells h r) (cells h1 r) \<and> depth (cells h1 r) \<le> depth (cells h r))"
    using p commute_fold_frame unfolding commute_pass_def by blast
  show ?case
  proof (cases c1)
    case False
    then have "commute_while optimized h = h1"
      using p by (subst commute_while.simps) (simp add: Let_def)
    then show ?thesis using a by simp
  next
    case True
    then have e: "commute_while optimized h = commute_while optimized h1"
      using p by (subst commute_while.simps) (simp add: Let_def)
    have b: "lim (commute_while optimized h1) = lim h1 \<and>
        (\<forall>r. same_gate (cells h1 r) (cells (commute_while optimized h1) r) \<and>
        depth (cells (commute_while optimized h1) r) \<le> depth (cells h1 r))"
      using "1.IH" [of "commute_pass optimized h"] p True by simp
    show ?thesis
      unfolding e using a b unfolding same_gate_def by (smt (verit, best) order_trans)
  qed
qed

lemma set_cancel_spec: "set (cancel_spec h gs) \<subseteq> set gs"
  by (induction h gs rule: cancel_spec.induct) auto

lemma cancel_inverse_gates_subset: "set (cancel_inverse_gates h gs) \<subseteq> set gs"
  using cancel_loop_spec [of 0 gs h "[]"] set_cancel_spec [of h gs]
  by (simp add: cancel_inverse_gates_def)

lemma merge_rotation_gates_frame:
  assumes "\<forall>r\<in>set gs. r < lim h" and "merge_rotation_gates ar h gs = (gs', h')"
  shows "lim h \<le> lim h' \<and> (\<forall>r<lim h. cells h' r = cells h r) \<and> (\<forall>r\<in>set gs'. r < lim h')"
  using merge_loop_spec [OF _ assms(1), of 0 ar "[]" gs' h'] assms(2)
  by (auto simp: merge_rotation_gates_def)

lemma rule_frame:
  assumes "optimization_rules nm = Some rule" and "\<forall>r\<in>set gs. r < lim h"
    and "rule h gs = (gs', h')"
  shows "frame_le h h' \<and> (\<forall>r\<in>set gs'. r < lim h') \<and>
         (nm \<noteq> ''commute_gates'' \<longrightarrow> (\<forall>r<lim h. cells h' r = cells h r))"
proof -
  consider (c) "nm = ''cancel_inverse''" "rule = (\<lambda>h gs. (cancel_inverse_gates h gs, h))"
    | (m) "nm = ''merge_rotations''" "rule = merge_rotation_gates exact_arith"
    | (k) "nm = ''commute_gates''" "rule = commute_gates"
    using assms(1) by (auto simp: optimization_rules_def split: if_splits)
  then show ?thesis
  proof cases
    case c
    then have "h' = h" "gs' = cancel_inverse_gates h gs"
      using assms(3) by auto
    then show ?thesis
      using assms(2) cancel_inverse_gates_subset [of h gs] frame_le_refl by auto
  next
    case m
    from merge_rotation_gates_frame [OF assms(2)] assms(3) m
    have f: "lim h \<le> lim h' \<and> (\<forall>r<lim h. cells h' r = cells h r) \<and> (\<forall>r\<in>set gs'. r < lim h')"
      by simp
    then have "frame_le h h'"
      by (simp add: frame_le_def same_gate_def)
    with f show ?thesis by simp
  next
    case k
    then have e: "gs' = gs" "h' = commute_while gs h"
      using assms(3) by (auto simp: commute_gates_def)
    show ?thesis
      using commute_while_frame [of gs h] assms(2) k(1)
      by (simp add: e frame_le_def)
  qed
qed

text \<open>The body of the loop over the rule names in \<open>optimize\<close>.\<close>

definition rule_step :: "string \<Rightarrow> ref list \<times> real heap \<Rightarrow> ref list \<times> real heap" where
  "rule_step = (\<lambda>rule_name (optimized, h).
                 case optimization_rules rule_name of
                   Some rule \<Rightarrow> rule h optimized
                 | None \<Rightarrow> (optimized, h))"

lemma rules_fold_frame:
  assumes "\<forall>r\<in>set gs. r < lim h" and "fold rule_step rules (gs, h) = (gs', h')"
  shows "frame_le h h' \<and> (\<forall>r\<in>set gs'. r < lim h') \<and>
         (''commute_gates'' \<notin> set rules \<longrightarrow> lim h \<le> lim h' \<and> (\<forall>r<lim h. cells h' r = cells h r))"
  using assms
proof (induction rules arbitrary: gs h)
  case Nil
  then show ?case by (simp add: frame_le_refl)
next
  case (Cons nm rules)
  obtain gs1 h1 where s: "rule_step nm (gs, h) = (gs1, h1)"
    by (cases "rule_step nm (gs, h)")
  have a: "frame_le h h1 \<and> (\<forall>r\<in>set gs1. r < lim h1) \<and>
         (nm \<noteq> ''commute_gates'' \<longrightarrow> (\<forall>r<lim h. cells h1 r = cells h r))"
  proof (cases "optimization_rules nm")
    case None
    then have "gs1 = gs" "h1 = h" using s by (simp_all add: rule_step_def)
    then show ?thesis using Cons.prems(1) frame_le_refl by simp
  next
    case (Some rule)
    then have "rule h gs = (gs1, h1)" using s by (simp add: rule_step_def)
    from rule_frame [OF Some Cons.prems(1) this] show ?thesis .
  qed
  have f1: "fold rule_step rules (gs1, h1) = (gs', h')"
    using Cons.prems(2) by (simp add: s)
  have v1: "\<forall>r\<in>set gs1. r < lim h1"
    by (rule conjunct1 [OF conjunct2 [OF a]])
  note b = Cons.IH [OF v1 f1]
  have l: "lim h \<le> lim h1" using a by (simp add: frame_le_def)
  show ?case
  proof (intro conjI impI)
    show "frame_le h h'"
      by (rule frame_le_trans [OF conjunct1 [OF a] conjunct1 [OF b]])
    show "\<forall>r\<in>set gs'. r < lim h'"
      by (rule conjunct1 [OF conjunct2 [OF b]])
    assume n: "''commute_gates'' \<notin> set (nm # rules)"
    then have n1: "nm \<noteq> ''commute_gates''" and n2: "''commute_gates'' \<notin> set rules"
      by auto
    have b2: "lim h1 \<le> lim h'" "\<forall>r<lim h1. cells h' r = cells h1 r"
      using mp [OF conjunct2 [OF conjunct2 [OF b]] n2] by simp_all
    have a2: "\<forall>r<lim h. cells h1 r = cells h r"
      by (rule mp [OF conjunct2 [OF conjunct2 [OF a]] n1])
    show "lim h \<le> lim h'" using b2(1) l by linarith
    show "\<forall>r<lim h. cells h' r = cells h r"
    proof (intro allI impI)
      fix r assume r: "r < lim h"
      then have "r < lim h1" using l by linarith
      then have "cells h' r = cells h1 r" using b2(2) by blast
      also have "\<dots> = cells h r" using a2 r by blast
      finally show "cells h' r = cells h r" .
    qed
  qed
qed

definition selected_rules :: "string list option \<Rightarrow> string list" where
  "selected_rules rules =
     (case rules of None \<Rightarrow> [''cancel_inverse'', ''merge_rotations'', ''commute_gates'']
      | Some rs \<Rightarrow> rs)"

lemma optimize_fold: "optimize h gs rules = fold rule_step (selected_rules rules) (gs, h)"
  by (simp add: optimize_def rule_step_def selected_rules_def Let_def)

text \<open>
  C5, as the code has it. For every store, every gate list whose references are allocated
  and every selection of rules, after \<open>optimize\<close> every gate record that existed before the
  call has the name, the target-qubit list and the parameter mapping it had, and a depth
  that is at most the depth it had. When \<open>commute_gates\<close> is not among the selected rules,
  every such record is unchanged. \<open>commute_gates\<close> returns the list it was given, so it
  changes depth annotations only.
\<close>

theorem optimize_frame:
  assumes "\<forall>r\<in>set gs. r < lim h"
  shows "(\<forall>r<lim h. same_gate (cells h r) (cells (snd (optimize h gs rules)) r) \<and>
                   depth (cells (snd (optimize h gs rules)) r) \<le> depth (cells h r)) \<and>
         (''commute_gates'' \<notin> set (selected_rules rules) \<longrightarrow>
            (\<forall>r<lim h. cells (snd (optimize h gs rules)) r = cells h r)) \<and>
         fst (commute_gates h gs) = gs"
proof -
  obtain gs' h' where o: "fold rule_step (selected_rules rules) (gs, h) = (gs', h')"
    by (cases "fold rule_step (selected_rules rules) (gs, h)")
  from rules_fold_frame [OF assms o] show ?thesis
    by (simp add: optimize_fold o frame_le_def commute_gates_def)
qed

text \<open>
  A store with X on qubit 0 at depth 0 and X on qubit 1 at depth 3. The claim's "never
  mutates" fails here: \<open>commute_gates\<close>, which is part of the default pipeline, assigns to
  \<open>gate2.depth\<close> of the caller's own record.
\<close>

definition store_depths :: "real heap" where
  "store_depths = \<lparr>cells = (\<lambda>r. \<lparr>gate_name = ''X'', qubits = [int r], params = Map.empty,
                         depth = (if r = 1 then 3 else 0)\<rparr>), lim = 2\<rparr>"

theorem optimize_mutates_depth_counterexample:
  "depth (cells store_depths 1) = 3 \<and> depth (cells (snd (optimize store_depths [0, 1] None)) 1) = 0"
  by (simp add: store_depths_def opt_simps Let_def)

theorem optimize_frame_witness:
  "same_gate (cells store_depths 1) (cells (snd (optimize store_depths [0, 1] None)) 1) \<and>
   depth (cells (snd (optimize store_depths [0, 1] None)) 1) \<le> depth (cells store_depths 1) \<and>
   cells (snd (optimize store_depths [0, 1] (Some [''cancel_inverse'', ''merge_rotations'']))) 1 = cells store_depths 1"
proof -
  have v: "\<forall>r\<in>set [0, 1]. r < lim store_depths" by (simp add: store_depths_def)
  have l: "(1::nat) < lim store_depths" by (simp add: store_depths_def)
  have n: "''commute_gates'' \<notin> set (selected_rules (Some [''cancel_inverse'', ''merge_rotations'']))"
    by (simp add: selected_rules_def)
  show ?thesis
    using optimize_frame [OF v, of None] l
      optimize_frame [OF v, of "Some [''cancel_inverse'', ''merge_rotations'']"] n
    by blast
qed

section \<open>C9: an unknown gate name aborts the run and leaves partial progress\<close>

lemma get_gate_error: "get_gate nm ps = Inl e \<Longrightarrow> e = UnknownGate"
  by (auto simp: get_gate_def split: option.splits if_splits)

lemma gate_tuples_of_unknown:
  "get_gate (gate_name g) (params g) = Inl UnknownGate \<Longrightarrow>
   gate_tuples_of (pre @ g # rest) = Inl UnknownGate"
proof (induction pre)
  case Nil
  then show ?case by simp
next
  case (Cons p pre)
  show ?case
  proof (cases "get_gate (gate_name p) (params p)")
    case (Inl e)
    then show ?thesis using get_gate_error [OF Inl] by simp
  next
    case (Inr m)
    then show ?thesis using Cons by simp
  qed
qed

text \<open>
  C9, as the code has it. Let the list the run executes (the session's gates, or the
  optimizer's output when optimisation is on) have a gate with an unknown name at some
  position. On the state-vector path, let the gates before it run without error: then
  \<open>run\<close> fails with \<open>UnknownGate\<close> and the session's state is the result of applying the
  gates before the failing one to the all-zero state: nothing is rolled back. On the
  tensor-contraction path, whatever the other gates are, \<open>run\<close> fails with \<open>UnknownGate\<close>
  and the state is the one the session had before the run: every gate matrix is resolved
  before any gate is applied and before the state is assigned.
\<close>

theorem unknown_gate_partial_progress:
  assumes "nodes_to_run c opt = pre @ g # rest"
    and "get_gate (gate_name g) (params g) = Inl UnknownGate"
    and "\<not> use_tensor_network c \<longrightarrow>
         snd (run_gates (n_qubits c) (use_sparse c) pre (zero_state (n_qubits c))) = None"
  shows "snd (run c opt) = Inl UnknownGate \<and>
         state (fst (run c opt)) =
           (if use_tensor_network c then state c
            else fst (run_gates (n_qubits c) (use_sparse c) pre (zero_state (n_qubits c))))"
proof (cases "use_tensor_network c")
  case True
  have "gate_tuples_of (nodes_to_run c opt) = Inl UnknownGate"
    unfolding assms(1) by (rule gate_tuples_of_unknown [OF assms(2)])
  then show ?thesis
    using True by (simp add: run_def Let_def)
next
  case False
  then have ok: "snd (run_gates (n_qubits c) (use_sparse c) pre (zero_state (n_qubits c))) = None"
    using assms(3) by simp
  obtain st where pre: "run_gates (n_qubits c) (use_sparse c) pre (zero_state (n_qubits c)) = (st, None)"
    using ok by (metis prod.collapse)
  have "apply_gate_node (n_qubits c) (use_sparse c) g st = Inl UnknownGate"
    using assms(2) by (simp add: apply_gate_node_def)
  then have "run_gates (n_qubits c) (use_sparse c) (pre @ g # rest) (zero_state (n_qubits c))
      = (st, Some UnknownGate)"
    by (simp add: run_gates_append pre)
  then show ?thesis
    using False assms(1) pre by (simp add: run_result_sv run_state_sv)
qed

lemmas build_simps = alloc_def empty_heap_def add_gate_def new_circuit_def Let_def
  gates_to_run_def nodes_to_run_def

lemma zero_state_1: "zero_state 1 = [1, 0]"
  by code_simp

lemma x_on_1: "sparse_state_vector_product (apply_single_qubit_gate pauli_x 0 1 False) [1, 0] = Inr [0, 1]"
  by code_simp

lemma get_gate_FOO: "get_gate ''FOO'' ps = Inl UnknownGate"
  by (simp add: get_gate_def GATE_MAP_def)

lemma x_foo_nodes:
  "nodes_to_run (add_gate (add_gate (new_circuit 1 (Some False) tn) ''X'' [0] Map.empty)
      ''FOO'' [0] Map.empty) False =
   [\<lparr>gate_name = ''X'', qubits = [0], params = Map.empty, depth = 0\<rparr>] @
   \<lparr>gate_name = ''FOO'', qubits = [0], params = Map.empty, depth = 0\<rparr> # []"
  by (simp add: build_simps)

lemma x_run_1:
  "run_gates 1 False [\<lparr>gate_name = ''X'', qubits = [0], params = Map.empty, depth = 0\<rparr>] [1, 0] =
     ([0, 1], None)"
  by (simp add: apply_gate_node_def get_gate_fixed x_on_1 del: One_nat_def)

lemma toffoli_foo_nodes:
  "nodes_to_run (add_gate (add_gate (new_circuit 3 (Some False) True) ''TOFFOLI'' [0, 1, 2] Map.empty)
      ''FOO'' [0] Map.empty) False =
   [\<lparr>gate_name = ''TOFFOLI'', qubits = [0, 1, 2], params = Map.empty, depth = 0\<rparr>] @
   \<lparr>gate_name = ''FOO'', qubits = [0], params = Map.empty, depth = 0\<rparr> # []"
  by (simp add: build_simps)

text \<open>
  Two runs: X then FOO on one qubit on the state-vector path, where the state is left at
  \<open>[0, 1]\<close>, and TOFFOLI then FOO on three qubits on the tensor-contraction path, where
  the state is left at the initial one (on the state-vector path the three-qubit gate
  before FOO would itself be refused).
\<close>

theorem unknown_gate_partial_progress_witness:
  "snd (run (add_gate (add_gate (new_circuit 1 (Some False) False) ''X'' [0] Map.empty)
      ''FOO'' [0] Map.empty) False) = Inl UnknownGate \<and>
   state (fst (run (add_gate (add_gate (new_circuit 1 (Some False) False) ''X'' [0] Map.empty)
      ''FOO'' [0] Map.empty) False)) = [0, 1] \<and>
   snd (run (add_gate (add_gate (new_circuit 3 (Some False) True) ''TOFFOLI'' [0, 1, 2] Map.empty)
      ''FOO'' [0] Map.empty) False) = Inl UnknownGate \<and>
   state (fst (run (add_gate (add_gate (new_circuit 3 (Some False) True) ''TOFFOLI'' [0, 1, 2] Map.empty)
      ''FOO'' [0] Map.empty) False)) = [1, 0, 0, 0, 0, 0, 0, 0] \<and>
   snd (run_gates 3 False
      [\<lparr>gate_name = ''TOFFOLI'', qubits = [0, 1, 2], params = Map.empty, depth = 0\<rparr>]
      (zero_state 3)) = Some UnsupportedArity"
proof -
  let ?c = "add_gate (add_gate (new_circuit 1 (Some False) False) ''X'' [0] Map.empty)
      ''FOO'' [0] Map.empty"
  let ?d = "add_gate (add_gate (new_circuit 3 (Some False) True) ''TOFFOLI'' [0, 1, 2] Map.empty)
      ''FOO'' [0] Map.empty"
  let ?x = "\<lparr>gate_name = ''X'', qubits = [0], params = Map.empty, depth = 0\<rparr>"
  let ?foo = "\<lparr>gate_name = ''FOO'', qubits = [0], params = Map.empty, depth = 0\<rparr>"
  let ?tof = "\<lparr>gate_name = ''TOFFOLI'', qubits = [0, 1, 2], params = Map.empty, depth = 0\<rparr>"
  have f: "n_qubits ?c = 1" "use_sparse ?c = False" "use_tensor_network ?c = False"
    by simp_all
  have r: "run_gates (n_qubits ?c) (use_sparse ?c) [?x] (zero_state (n_qubits ?c)) = ([0, 1], None)"
    unfolding f zero_state_1 by (rule x_run_1)
  have u: "get_gate (gate_name ?foo) (params ?foo) = Inl UnknownGate"
    by (simp add: get_gate_FOO)
  have ok: "\<not> use_tensor_network ?c \<longrightarrow>
      snd (run_gates (n_qubits ?c) (use_sparse ?c) [?x] (zero_state (n_qubits ?c))) = None"
    by (simp only: r snd_conv simp_thms)
  have sv: "snd (run ?c False) = Inl UnknownGate \<and> state (fst (run ?c False)) = [0, 1]"
    using unknown_gate_partial_progress [OF x_foo_nodes [of False] u ok]
    by (simp only: f r [unfolded f] fst_conv if_False simp_thms)
  have g: "use_tensor_network ?d = True" "state ?d = zero_state 3"
    by simp_all
  have ok': "\<not> use_tensor_network ?d \<longrightarrow>
      snd (run_gates (n_qubits ?d) (use_sparse ?d) [?tof] (zero_state (n_qubits ?d))) = None"
    by (simp only: g simp_thms)
  have tn: "snd (run ?d False) = Inl UnknownGate \<and>
      state (fst (run ?d False)) = [1, 0, 0, 0, 0, 0, 0, 0]"
    using unknown_gate_partial_progress [OF toffoli_foo_nodes u ok']
    by (simp only: g if_True zero_state_3 simp_thms)
  have ar: "snd (run_gates 3 False [?tof] (zero_state 3)) = Some UnsupportedArity"
    by (simp add: apply_gate_node_def get_gate_fixed)
  from sv tn ar show ?thesis by (simp only: simp_thms)
qed

text \<open>
  The claim as stated, for every run, fails on the tensor-contraction path: with the gates
  X and FOO on one qubit the run fails with \<open>UnknownGate\<close> and the state is still the
  initial \<open>[1, 0]\<close>, not the \<open>[0, 1]\<close> that the first gate alone produces.
\<close>

lemma x_tensor_1: "apply_gate_tensor 1 [1, 0] pauli_x [0] = Inr [0, 1]"
  by code_simp

lemma x_nodes_tn:
  "nodes_to_run (add_gate (new_circuit 1 (Some False) True) ''X'' [0] Map.empty) False =
   [\<lparr>gate_name = ''X'', qubits = [0], params = Map.empty, depth = 0\<rparr>]"
  by (simp add: build_simps)

theorem unknown_gate_tensor_counterexample:
  "snd (run (add_gate (new_circuit 1 (Some False) True) ''X'' [0] Map.empty) False) = Inr [0, 1] \<and>
   snd (run (add_gate (add_gate (new_circuit 1 (Some False) True) ''X'' [0] Map.empty)
      ''FOO'' [0] Map.empty) False) = Inl UnknownGate \<and>
   state (fst (run (add_gate (add_gate (new_circuit 1 (Some False) True) ''X'' [0] Map.empty)
      ''FOO'' [0] Map.empty) False)) = [1, 0]"
  by (simp add: run_def Let_def x_nodes_tn x_foo_nodes get_gate_fixed get_gate_FOO
      tensor_network_simulator_def zero_state_1 x_tensor_1 del: One_nat_def)

section \<open>C1: optimised and unoptimised runs\<close>

text \<open>
  \<open>merge_rotations\<close> reduces the summed angle modulo \<open>2\<pi>\<close>, but the rotation matrices take
  half the angle and have period \<open>4\<pi>\<close>: \<open>rx (2\<pi>)\<close> is minus the identity. A single gate
  RX(\<open>2\<pi>\<close>) is a run of length one whose reduced angle is 0, so the optimizer drops it.
\<close>

lemma get_gate_RX: "get_gate ''RX'' ps = Inr (rx (params_get ps ''theta'' 0))"
  by (simp add: get_gate_def GATE_MAP_def)

lemma rx_2pi: "rx (2 * pi) = [[- 1, 0], [0, - 1]]"
  by (simp add: rx_def)

lemma minus_id_on_1:
  "sparse_state_vector_product (apply_single_qubit_gate [[- 1, 0], [0, - 1]] 0 1 False) [1, 0] =
     Inr [- 1, 0]"
  by code_simp

lemma rx_2pi_nodes_raw:
  "nodes_to_run (add_gate (new_circuit 1 (Some False) False) ''RX'' [0] [''theta'' \<mapsto> 2 * pi]) False =
     [\<lparr>gate_name = ''RX'', qubits = [0], params = [''theta'' \<mapsto> 2 * pi], depth = 0\<rparr>]"
  by (simp add: build_simps)

lemma rx_2pi_nodes_opt:
  "nodes_to_run (add_gate (new_circuit 1 (Some False) False) ''RX'' [0] [''theta'' \<mapsto> 2 * pi]) True = []"
  by (simp add: build_simps opt_simps params_get_def fmod_2pi)

text \<open>
  C1 at the input \<open>n = 1\<close>, gates RX(\<open>2\<pi>\<close>) on qubit 0: the run without optimisation returns
  \<open>[-1, 0]\<close>, the run with optimisation returns \<open>[1, 0]\<close>. The two vectors differ by 2 in
  their first entry.
\<close>

theorem optimizer_changes_result:
  "snd (run (add_gate (new_circuit 1 (Some False) False) ''RX'' [0] [''theta'' \<mapsto> 2 * pi]) False) =
     Inr [- 1, 0] \<and>
   snd (run (add_gate (new_circuit 1 (Some False) False) ''RX'' [0] [''theta'' \<mapsto> 2 * pi]) True) =
     Inr [1, 0]"
proof
  show "snd (run (add_gate (new_circuit 1 (Some False) False) ''RX'' [0] [''theta'' \<mapsto> 2 * pi]) False) =
     Inr [- 1, 0]"
    by (simp add: run_result_sv rx_2pi_nodes_raw zero_state_1 apply_gate_node_def get_gate_RX
        params_get_def rx_2pi minus_id_on_1 del: One_nat_def)
  show "snd (run (add_gate (new_circuit 1 (Some False) False) ''RX'' [0] [''theta'' \<mapsto> 2 * pi]) True) =
     Inr [1, 0]"
    by (simp add: run_result_sv rx_2pi_nodes_opt zero_state_1 del: One_nat_def)
qed

section \<open>C2: sparse and dense construction\<close>

text \<open>
  The sparse branch of \<open>apply_two_qubit_gate\<close> walks \<open>range(0, n_qubits, 2)\<close>: it only meets
  an even \<open>min_idx\<close>, and it has then multiplied in \<open>min_idx / 2\<close> identities, not
  \<open>min_idx\<close>. The dense branch multiplies in one identity for every position below
  \<open>min_idx\<close>.
\<close>

lemma x_on_q1_of_3:
  "sparse_state_vector_product (apply_single_qubit_gate pauli_x 1 3 sp) [1, 0, 0, 0, 0, 0, 0, 0] =
     Inr [0, 0, 1, 0, 0, 0, 0, 0]"
  by (cases sp) (simp_all, code_simp+)

lemma cnot12_of_3_dense:
  "apply_two_qubit_gate cnot 1 2 3 False = Inr
     [[1, 0, 0, 0, 0, 0, 0, 0],
      [0, 1, 0, 0, 0, 0, 0, 0],
      [0, 0, 0, 1, 0, 0, 0, 0],
      [0, 0, 1, 0, 0, 0, 0, 0],
      [0, 0, 0, 0, 1, 0, 0, 0],
      [0, 0, 0, 0, 0, 1, 0, 0],
      [0, 0, 0, 0, 0, 0, 0, 1],
      [0, 0, 0, 0, 0, 0, 1, 0]]"
  by code_simp

lemma cnot12_of_3_sparse:
  "apply_two_qubit_gate cnot 1 2 3 True = Inr
     [[1, 0, 0, 0],
      [0, 1, 0, 0],
      [0, 0, 1, 0],
      [0, 0, 0, 1]]"
  by code_simp

lemma cnot12_dense_apply:
  "sparse_state_vector_product
     [[1, 0, 0, 0, 0, 0, 0, 0],
      [0, 1, 0, 0, 0, 0, 0, 0],
      [0, 0, 0, 1, 0, 0, 0, 0],
      [0, 0, 1, 0, 0, 0, 0, 0],
      [0, 0, 0, 0, 1, 0, 0, 0],
      [0, 0, 0, 0, 0, 1, 0, 0],
      [0, 0, 0, 0, 0, 0, 0, 1],
      [0, 0, 0, 0, 0, 0, 1, 0]] [0, 0, 1, 0, 0, 0, 0, 0] = Inr [0, 0, 0, 1, 0, 0, 0, 0]"
  by code_simp

lemma cnot12_sparse_apply:
  "sparse_state_vector_product
     [[1, 0, 0, 0],
      [0, 1, 0, 0],
      [0, 0, 1, 0],
      [0, 0, 0, 1]] [0, 0, 1, 0, 0, 0, 0, 0] = Inl ShapeMismatch"
  by code_simp

lemma x1_cnot12_nodes:
  "nodes_to_run (add_gate (add_gate (new_circuit 3 (Some sp) False) ''X'' [1] Map.empty)
      ''CNOT'' [1, 2] Map.empty) False =
   [\<lparr>gate_name = ''X'', qubits = [1], params = Map.empty, depth = 0\<rparr>,
    \<lparr>gate_name = ''CNOT'', qubits = [1, 2], params = Map.empty, depth = 0\<rparr>]"
  by (simp add: build_simps)

text \<open>
  C2 at the input \<open>n = 3\<close>, CNOT on the adjacent qubits 1 and 2: the sparse expansion is the
  \<open>4 \<times> 4\<close> identity, the dense expansion is the \<open>8 \<times> 8\<close> operator. Running X on qubit 1 and
  then this CNOT returns the basis state of index 3 with the dense policy and raises the
  shape error of the matrix-vector product with the sparse policy.
\<close>

theorem sparse_differs_from_dense:
  "apply_two_qubit_gate cnot 1 2 3 True = Inr
     [[1, 0, 0, 0],
      [0, 1, 0, 0],
      [0, 0, 1, 0],
      [0, 0, 0, 1]] \<and>
   apply_two_qubit_gate cnot 1 2 3 False = Inr
     [[1, 0, 0, 0, 0, 0, 0, 0],
      [0, 1, 0, 0, 0, 0, 0, 0],
      [0, 0, 0, 1, 0, 0, 0, 0],
      [0, 0, 1, 0, 0, 0, 0, 0],
      [0, 0, 0, 0, 1, 0, 0, 0],
      [0, 0, 0, 0, 0, 1, 0, 0],
      [0, 0, 0, 0, 0, 0, 0, 1],
      [0, 0, 0, 0, 0, 0, 1, 0]] \<and>
   snd (run (add_gate (add_gate (new_circuit 3 (Some False) False) ''X'' [1] Map.empty)
      ''CNOT'' [1, 2] Map.empty) False) = Inr [0, 0, 0, 1, 0, 0, 0, 0] \<and>
   snd (run (add_gate (add_gate (new_circuit 3 (Some True) False) ''X'' [1] Map.empty)
      ''CNOT'' [1, 2] Map.empty) False) = Inl ShapeMismatch"
proof (intro conjI)
  show "snd (run (add_gate (add_gate (new_circuit 3 (Some False) False) ''X'' [1] Map.empty)
      ''CNOT'' [1, 2] Map.empty) False) = Inr [0, 0, 0, 1, 0, 0, 0, 0]"
    by (simp add: run_result_sv x1_cnot12_nodes zero_state_3 apply_gate_node_def get_gate_fixed
        x_on_q1_of_3 cnot12_of_3_dense cnot12_dense_apply del: One_nat_def)
  show "snd (run (add_gate (add_gate (new_circuit 3 (Some True) False) ''X'' [1] Map.empty)
      ''CNOT'' [1, 2] Map.empty) False) = Inl ShapeMismatch"
    by (simp add: run_result_sv x1_cnot12_nodes zero_state_3 apply_gate_node_def get_gate_fixed
        x_on_q1_of_3 cnot12_of_3_sparse cnot12_sparse_apply del: One_nat_def)
qed (rule cnot12_of_3_sparse cnot12_of_3_dense)+

section \<open>Kronecker products and matrix-vector products\<close>

text \<open>
  Auxiliary notions for the proofs: the product of \<open>sparse_state_vector_product\<close> without
  its shape check, the basis vector of dimension \<open>d\<close> with its one at index \<open>k\<close>, and
  square matrices of a given dimension.
\<close>

definition matvec :: "cmat \<Rightarrow> cvec \<Rightarrow> cvec" where
  "matvec M v = map (\<lambda>row. dot row v) M"

definition basis :: "nat \<Rightarrow> nat \<Rightarrow> cvec" where
  "basis d k = (replicate d (0::complex))[k := 1]"

lemma zero_state_basis: "zero_state n = basis (2 ^ n) 0"
  by (simp add: zero_state_def basis_def)

lemma dot_Nil [simp]: "dot [] ys = 0" "dot xs [] = 0"
  by (simp_all add: dot_def)

lemma dot_Cons [simp]: "dot (x # xs) (y # ys) = x * y + dot xs ys"
  by (simp add: dot_def)

lemma dot_append:
  "length xs = length us \<Longrightarrow> dot (xs @ ys) (us @ vs) = dot xs us + dot ys vs"
  by (induction xs us rule: list_induct2) (simp_all add: algebra_simps)

lemma dot_scale: "dot (map ((*) a) rb) (map ((*) x) v) = a * x * dot rb v"
proof (induction rb arbitrary: v)
  case Nil
  then show ?case by simp
next
  case (Cons b rb)
  then show ?case by (cases v) (simp_all add: algebra_simps)
qed

lemma krow_Nil [simp]: "krow [] rb = []"
  by (simp add: krow_def)

lemma krow_Cons [simp]: "krow (a # ra) rb = map ((*) a) rb @ krow ra rb"
  by (simp add: krow_def)

lemma length_krow [simp]: "length (krow ra rb) = length ra * length rb"
  by (induction ra) simp_all

lemma dot_krow:
  "length ra = length u \<Longrightarrow> length rb = length v \<Longrightarrow>
   dot (krow ra rb) (krow u v) = dot ra u * dot rb v"
  by (induction ra u rule: list_induct2) (simp_all add: dot_append dot_scale algebra_simps)

lemma kron_Nil [simp]: "kron [] B = []"
  by (simp add: kron_def)

lemma kron_Cons [simp]: "kron (ra # A) B = map (krow ra) B @ kron A B"
  by (simp add: kron_def)

lemma matvec_kron:
  assumes "\<forall>ra\<in>set A. length ra = length u" and "\<forall>rb\<in>set B. length rb = length v"
  shows "matvec (kron A B) (krow u v) = krow (matvec A u) (matvec B v)"
  using assms(1)
proof (induction A)
  case Nil
  then show ?case by (simp add: matvec_def)
next
  case (Cons ra A)
  have "map (\<lambda>row. dot row (krow u v)) (map (krow ra) B) = map ((*) (dot ra u)) (map (\<lambda>rb. dot rb v) B)"
    using Cons.prems assms(2) by (simp add: dot_krow)
  then show ?case
    using Cons by (simp add: matvec_def)
qed

definition square :: "nat \<Rightarrow> cmat \<Rightarrow> bool" where
  "square d M \<longleftrightarrow> length M = d \<and> (\<forall>row\<in>set M. length row = d)"

lemma length_kron: "length (kron A B) = length A * length B"
  by (induction A) simp_all

lemma square_kron: "square a A \<Longrightarrow> square b B \<Longrightarrow> square (a * b) (kron A B)"
  unfolding square_def
proof (induction A arbitrary: a)
  case Nil
  then show ?case by simp
next
  case (Cons ra A)
  then obtain a' where a: "a = Suc a'" by (cases a) auto
  have "length (kron A B) = a' * b \<and> (\<forall>row\<in>set (kron A B). length row = a * b)"
    using Cons a by (auto simp: kron_def length_concat comp_def sum_list_triv)
  then show ?case
    using Cons.prems a by auto
qed

lemma square_eye: "square n (eye n)"
  by (auto simp: square_def eye_def)

lemma product_ok:
  "square (length v) M \<Longrightarrow> sparse_state_vector_product M v = Inr (matvec M v)"
  by (simp add: sparse_state_vector_product_def square_def matvec_def list_all_iff)

lemma product_bad:
  "square d M \<Longrightarrow> d \<noteq> length v \<Longrightarrow> d \<noteq> 0 \<Longrightarrow> sparse_state_vector_product M v = Inl ShapeMismatch"
  by (cases M) (auto simp: sparse_state_vector_product_def square_def)

lemma basis_krow:
  assumes "k < d"
  shows "krow (basis d k) [1, 0] = basis (2 * d) (2 * k)"
    and "krow (basis d k) [0, 1] = basis (2 * d) (2 * k + 1)"
proof -
  have gen: "krow (replicate d 0) [x, y] = replicate (2 * d) 0" for x y :: complex and d
    by (induction d) simp_all
  have upd: "k < length u \<Longrightarrow> u ! k = 0 \<Longrightarrow>
      krow (u[k := 1]) [x, y] = (krow u [x, y])[2 * k := x, 2 * k + 1 := y]" for u :: cvec and x y k
  proof (induction u arbitrary: k)
    case Nil
    then show ?case by simp
  next
    case (Cons a u)
    show ?case
    proof (cases k)
      case 0
      then show ?thesis using Cons.prems by simp
    next
      case (Suc k')
      then show ?thesis using Cons by simp
    qed
  qed
  have z: "(replicate d (0::complex)) ! k = 0" using assms by simp
  have id0: "(replicate (2 * d) (0::complex))[2 * k := 0] = replicate (2 * d) 0"
    and id1: "(replicate (2 * d) (0::complex))[Suc (2 * k) := 0] = replicate (2 * d) 0"
    using assms by (simp_all add: list_update_same_conv)
  show "krow (basis d k) [1, 0] = basis (2 * d) (2 * k)"
  proof -
    have "(replicate (2 * d) (0::complex))[2 * k := 1, Suc (2 * k) := 0] =
        (replicate (2 * d) 0)[Suc (2 * k) := 0, 2 * k := 1]"
      by (rule list_update_swap) simp
    then show ?thesis
      unfolding basis_def using upd [of k "replicate d 0" 1 0] assms z
      by (simp add: gen id1)
  qed
  show "krow (basis d k) [0, 1] = basis (2 * d) (2 * k + 1)"
    unfolding basis_def using upd [of k "replicate d 0" 0 1] assms z
    by (simp add: gen id0)
qed

section \<open>C3: which bit of the basis index a qubit is\<close>

lemma single_expand_1:
  "apply_single_qubit_gate g q (Suc 0) sp = (if q = 0 then g else eye 2)"
  by (simp add: apply_single_qubit_gate_def Let_def)

lemma single_expand_Suc:
  "apply_single_qubit_gate g q (Suc (Suc n)) sp =
     kron (apply_single_qubit_gate g q (Suc n) sp) (if int (Suc n) = q then g else eye 2)"
proof -
  have u: "[1..<Suc (Suc n)] = [1..<Suc n] @ [Suc n]" by simp
  show ?thesis
    unfolding apply_single_qubit_gate_def Let_def u fold_append by (simp del: upt_Suc)
qed

lemma square_single_expand:
  "square 2 g \<Longrightarrow> square (2 ^ Suc n) (apply_single_qubit_gate g q (Suc n) sp)"
proof (induction n)
  case 0
  then show ?case by (simp add: single_expand_1 square_eye)
next
  case (Suc n)
  have "square (2 ^ Suc n * 2) (kron (apply_single_qubit_gate g q (Suc n) sp)
      (if int (Suc n) = q then g else eye 2))"
    by (rule square_kron) (use Suc in \<open>simp_all add: square_eye\<close>)
  then show ?case by (simp add: single_expand_Suc mult.commute)
qed

lemma square_pauli_x: "square 2 pauli_x"
  by (simp add: square_def pauli_x_def)

lemma eye_2: "eye 2 = [[1, 0], [0, 1]]"
  by code_simp

lemma matvec_small:
  "matvec pauli_x [1, 0] = [0, 1]" "matvec (eye 2) [1, 0] = [1, 0]"
  by (simp_all add: matvec_def pauli_x_def eye_2)

lemma basis_2: "basis 2 0 = [1, 0]" "basis 2 1 = [0, 1]" "basis 2 (Suc 0) = [0, 1]"
  by (simp_all add: basis_def numeral_2_eq_2)

lemma x_expand_zero:
  "matvec (apply_single_qubit_gate pauli_x q (Suc n) sp) (basis (2 ^ Suc n) 0) =
     basis (2 ^ Suc n) (if 0 \<le> q \<and> q < int (Suc n) then 2 ^ (n - nat q) else 0)"
proof (induction n)
  case 0
  show ?case
    by (auto simp: single_expand_1 matvec_small basis_2)
next
  case (Suc n)
  let ?E = "apply_single_qubit_gate pauli_x q (Suc n) sp"
  let ?G = "if int (Suc n) = q then pauli_x else eye 2"
  let ?k = "if 0 \<le> q \<and> q < int (Suc n) then 2 ^ (n - nat q) else (0::nat)"
  have kd: "?k < 2 ^ Suc n"
    by (auto intro: order_le_less_trans [of _ "2 ^ n"])
  have sqE: "square (2 ^ Suc n) ?E"
    by (rule square_single_expand [OF square_pauli_x])
  have sqG: "square 2 ?G"
    by (simp add: square_pauli_x square_eye)
  have b0: "basis (2 ^ Suc (Suc n)) 0 = krow (basis (2 ^ Suc n) 0) [1, 0]"
    using basis_krow(1) [of 0 "2 ^ Suc n"] by simp
  have "matvec (kron ?E ?G) (krow (basis (2 ^ Suc n) 0) [1, 0]) =
      krow (matvec ?E (basis (2 ^ Suc n) 0)) (matvec ?G [1, 0])"
    by (rule matvec_kron) (use sqE sqG in \<open>auto simp: square_def basis_def\<close>)
  also have "\<dots> = krow (basis (2 ^ Suc n) ?k) (matvec ?G [1, 0])"
    by (simp only: Suc.IH)
  also have "\<dots> = basis (2 ^ Suc (Suc n))
      (if 0 \<le> q \<and> q < int (Suc (Suc n)) then 2 ^ (Suc n - nat q) else 0)"
  proof (cases "int (Suc n) = q")
    case True
    then have "nat q = Suc n" by auto
    with True show ?thesis
      using basis_krow(2) [of 0 "2 ^ Suc n"] by (simp add: matvec_small)
  next
    case False
    show ?thesis
    proof (cases "0 \<le> q \<and> q < int (Suc n)")
      case True
      then have "Suc n - nat q = Suc (n - nat q)" by auto
      with True False show ?thesis
        using basis_krow(1) [OF kd] by (simp add: matvec_small)
    next
      case nin: False
      have nn: "\<not> (0 \<le> q \<and> q < int (Suc (Suc n)))"
        using nin \<open>int (Suc n) \<noteq> q\<close> by auto
      show ?thesis
        unfolding if_not_P [OF nin] if_not_P [OF nn] if_not_P [OF \<open>int (Suc n) \<noteq> q\<close>]
          matvec_small
        using basis_krow(1) [of 0 "2 ^ Suc n"] by simp
    qed
  qed
  finally show ?case
    by (simp only: single_expand_Suc b0)
qed

lemma bin_digits_pow2: "bin_digits (2 ^ k) = CHR ''1'' # replicate k (CHR ''0'')"
proof (induction k)
  case 0
  show ?case by (subst bin_digits.simps) simp
next
  case (Suc k)
  have "bin_digits (2 ^ Suc k) = bin_digits (2 ^ k) @ [CHR ''0'']"
    by (subst bin_digits.simps) (simp add: power_gt1)
  then show ?case
    using Suc by (simp add: replicate_append_same)
qed

lemma x_nodes:
  "nodes_to_run (add_gate (new_circuit n sp tn) ''X'' [q] Map.empty) opt =
     [\<lparr>gate_name = ''X'', qubits = [q], params = Map.empty, depth = 0\<rparr>]"
  by (cases opt) (simp_all add: build_simps opt_simps)

text \<open>
  C3, as the code has it. The expansion puts qubit 0 leftmost in the Kronecker product, so
  qubit \<open>i\<close> is bit \<open>n - 1 - i\<close> of the basis index. For every \<open>n\<close>, every \<open>i < n\<close>, every
  construction policy and with or without optimisation, the run of X on qubit \<open>i\<close> on the
  state-vector path returns amplitude 1 at index \<open>2 ^ (n - 1 - i)\<close> and 0 elsewhere. The key
  of that index in the outcome table, its \<open>n\<close>-digit binary string, has its \<open>1\<close> at string
  position \<open>i\<close>: the first, most significant digit is qubit 0.
\<close>

theorem x_sets_big_endian_bit:
  assumes "i < n"
  shows "snd (run (add_gate (new_circuit n sp False) ''X'' [int i] Map.empty) opt) =
           Inr ((replicate (2 ^ n) 0)[2 ^ (n - 1 - i) := 1]) \<and>
         format_bin n (2 ^ (n - 1 - i)) =
           replicate i (CHR ''0'') @ CHR ''1'' # replicate (n - 1 - i) (CHR ''0'')"
proof
  obtain m where n: "n = Suc m" using assms by (cases n) auto
  let ?c = "add_gate (new_circuit n sp False) ''X'' [int i] Map.empty"
  let ?sp = "use_sparse ?c"
  let ?E = "apply_single_qubit_gate pauli_x (int i) (Suc m) ?sp"
  have "square (2 ^ Suc m) ?E"
    by (rule square_single_expand [OF square_pauli_x])
  then have "sparse_state_vector_product ?E (zero_state (Suc m)) = Inr (matvec ?E (basis (2 ^ Suc m) 0))"
    by (simp add: product_ok zero_state_basis basis_def)
  also have "\<dots> = Inr (basis (2 ^ Suc m) (2 ^ (m - i)))"
    using x_expand_zero [of "int i" m ?sp] assms n by simp
  finally have "run_gates (Suc m) ?sp
      [\<lparr>gate_name = ''X'', qubits = [int i], params = Map.empty, depth = 0\<rparr>] (zero_state (Suc m)) =
      (basis (2 ^ Suc m) (2 ^ (m - i)), None)"
    by (simp add: apply_gate_node_def get_gate_fixed)
  then show "snd (run ?c opt) = Inr ((replicate (2 ^ n) 0)[2 ^ (n - 1 - i) := 1])"
    by (simp add: run_result_sv x_nodes n basis_def)
  show "format_bin n (2 ^ (n - 1 - i)) =
           replicate i (CHR ''0'') @ CHR ''1'' # replicate (n - 1 - i) (CHR ''0'')"
    using assms by (simp add: format_bin_def bin_digits_pow2 Let_def)
qed

theorem x_sets_big_endian_bit_witness:
  "snd (run (add_gate (new_circuit 3 None False) ''X'' [1] Map.empty) True) =
           Inr [0, 0, 1, 0, 0, 0, 0, 0] \<and>
   format_bin 3 2 = ''010''"
proof -
  have l: "(1::nat) < 3" by simp
  have r: "(replicate 8 (0::complex))[2 := 1] = [0, 0, 1, 0, 0, 0, 0, 0]"
    by code_simp
  from x_sets_big_endian_bit [OF l, of None True] show ?thesis
    by (simp add: r)
qed

text \<open>
  The claim's index \<open>2 ^ i\<close> fails for \<open>n = 2\<close>, \<open>i = 0\<close>: X on qubit 0 gives amplitude 1
  at index 2, not at index \<open>2 ^ 0 = 1\<close>.
\<close>

theorem x_index_counterexample:
  "snd (run (add_gate (new_circuit 2 None False) ''X'' [0] Map.empty) True) = Inr [0, 0, 1, 0]"
proof -
  have e: "sparse_state_vector_product (apply_single_qubit_gate pauli_x 0 2 sp) [1, 0, 0, 0] =
      Inr [0, 0, 1, 0]" for sp
    by (cases sp) (simp_all, code_simp+)
  have z: "zero_state 2 = [1, 0, 0, 0]" by code_simp
  show ?thesis
    by (simp add: run_result_sv x_nodes z apply_gate_node_def get_gate_fixed e)
qed

section \<open>MPS construction (tensor_networks.py), at the level of array shapes\<close>

text \<open>
  Whether \<open>MPS.from_state_vector\<close> returns or raises depends on the shapes of its arrays
  only: every \<open>reshape\<close> succeeds exactly when the number of entries fits, and the shapes
  that \<open>np.linalg.svd(..., full_matrices=False)\<close> returns are fixed by the shape of its
  argument. The model below runs the method on shapes; an array is represented by its
  shape, a list of dimensions.
\<close>

type_synonym shape = "nat list"

definition size_of :: "shape \<Rightarrow> nat" where
  "size_of sh = prod_list sh"

text \<open>\<open>x.reshape(new)\<close> for a full shape, \<open>x.reshape(rows, -1)\<close> and \<open>x.reshape(-1, cols)\<close>.\<close>

definition reshape_to :: "shape \<Rightarrow> shape \<Rightarrow> error + shape" where
  "reshape_to new sh = (if size_of new = size_of sh then Inr new else Inl ShapeMismatch)"

definition reshape_rows :: "nat \<Rightarrow> shape \<Rightarrow> error + shape" where
  "reshape_rows rows sh =
     (if rows \<noteq> 0 \<and> size_of sh mod rows = 0 then Inr [rows, size_of sh div rows]
      else Inl ShapeMismatch)"

definition reshape_cols :: "nat \<Rightarrow> shape \<Rightarrow> error + shape" where
  "reshape_cols cols sh =
     (if cols \<noteq> 0 \<and> size_of sh mod cols = 0 then Inr [size_of sh div cols, cols]
      else Inl ShapeMismatch)"

text \<open>The tensors of \<open>MPS.__init__\<close>.\<close>

definition mps_init :: "nat \<Rightarrow> shape list" where
  "mps_init n = map (\<lambda>i. if i = 0 then [2, 1] else if i = n - 1 then [1, 2] else [1, 2, 1]) [0..<n]"

text \<open>One iteration of \<open>for i in range(n_qubits - 1)\<close> on the tensors and \<open>remaining\<close>.\<close>

definition mps_step :: "nat \<Rightarrow> nat \<Rightarrow> nat \<Rightarrow> shape list \<times> shape \<Rightarrow> error + shape list \<times> shape" where
  "mps_step n max_bond_dim i = (\<lambda>(tensors, remaining).
     case reshape_rows (2 * 2 ^ i) remaining of
       Inl e \<Rightarrow> Inl e
     | Inr remaining \<Rightarrow>
         (let rows = remaining ! 0;
              cols = remaining ! 1;
              len_S = min rows cols;
              bond_dim = min max_bond_dim len_S;
              U = [rows, bond_dim];
              Vh = [bond_dim, cols]
          in case (if i = 0 then reshape_to [2, bond_dim] U
                   else reshape_to [last (tensors ! (i - 1)), 2, bond_dim] U) of
               Inl e \<Rightarrow> Inl e
             | Inr t \<Rightarrow>
                 (case reshape_to (bond_dim # replicate (n - i - 1) 2) [bond_dim, cols] of
                    Inl e \<Rightarrow> Inl e
                  | Inr remaining \<Rightarrow> Inr (tensors[i := t], remaining))))"

fun mps_loop :: "nat \<Rightarrow> nat \<Rightarrow> nat list \<Rightarrow> shape list \<times> shape \<Rightarrow> error + shape list \<times> shape" where
  "mps_loop n max_bond_dim [] s = Inr s"
| "mps_loop n max_bond_dim (i # is) s =
     (case mps_step n max_bond_dim i s of
        Inl e \<Rightarrow> Inl e
      | Inr s' \<Rightarrow> mps_loop n max_bond_dim is s')"

text \<open>
  \<open>MPS.from_state_vector(state, max_bond_dim)\<close> for a state of \<open>2 ** n\<close> entries: the shapes
  of the tensors of the chain, or the exception. In \<open>mps.tensors[-1] = remaining.reshape(-1, 2)\<close>
  the right-hand side is evaluated before the assignment.
\<close>

definition from_state_vector_shapes :: "nat \<Rightarrow> nat \<Rightarrow> error + shape list" where
  "from_state_vector_shapes n max_bond_dim =
     (case mps_loop n max_bond_dim [0..<n - 1] (mps_init n, replicate n 2) of
        Inl e \<Rightarrow> Inl e
      | Inr (tensors, remaining) \<Rightarrow>
          (case reshape_cols 2 remaining of
             Inl e \<Rightarrow> Inl e
           | Inr t \<Rightarrow>
               if tensors = [] then Inl IndexError
               else Inr (tensors[length tensors - 1 := t])))"

section \<open>C4: MPS round trip\<close>

text \<open>
  C4 at the input of any state of five qubits (32 amplitudes) with the default
  \<open>max_bond_dim = 100\<close>: \<open>from_state_vector\<close> raises. At \<open>i = 3\<close> the array of shape
  \<open>[4, 2, 2]\<close> is reshaped to \<open>2 * 2 ** 3 = 16\<close> rows, not to \<open>prev_bond * 2 = 8\<close>, so \<open>U\<close> has
  16 entries and cannot take the shape \<open>(4, 2, 1)\<close>. No chain of tensors is produced, and
  there is nothing for \<open>to_state_vector\<close> to contract. Four qubits still work.
\<close>

theorem from_state_vector_fails_at_5:
  "from_state_vector_shapes 5 100 = Inl ShapeMismatch \<and>
   from_state_vector_shapes 4 100 = Inr [[2, 2], [2, 2, 4], [4, 2, 2], [2, 2]]"
  by code_simp

section \<open>Norm-preserving matrices\<close>


lemma norm_sq_Nil [simp]: "norm_sq [] = 0"
  by (simp add: norm_sq_def)

lemma norm_sq_Cons [simp]: "norm_sq (z # v) = (cmod z)\<^sup>2 + norm_sq v"
  by (simp add: norm_sq_def)

lemma norm_sq_append [simp]: "norm_sq (u @ v) = norm_sq u + norm_sq v"
  by (simp add: norm_sq_def)












































section \<open>C6: norm preservation\<close>










end
